theory Spec2Isabelle
  imports Main "HOL-Library.Word"
begin

unbundle bit_operations_syntax

section \<open>Signaling envelope (pkg/types)\<close>

text \<open>
  Go's fixed-width integers are words; Go's \<^verbatim>\<open>int\<close> (the envelope's \<^verbatim>\<open>Flag\<close> and the
  keepalive counters) is modelled as \<^typ>\<open>int\<close>: the counters stay between a small
  negative number and 15, so no operation on them can wrap.
\<close>

type_synonym byte = "8 word"
type_synonym int32 = "32 word"
type_synonym int64 = "64 word"

record PoolId =
  Value :: int64
  Direction :: int32
  ImplCode :: int32

record SignalingInfo =
  Flag :: int
  Source :: string
  SDP :: string
  Candidate :: "byte list"
  Id_ :: PoolId
  Target :: string
  PeerType :: int32
  RemoteRequestType :: int32

text \<open>The zero value of the struct: what a receive from a closed, drained channel yields.\<close>

definition zero_SignalingInfo :: SignalingInfo where
  "zero_SignalingInfo =
     \<lparr>Flag = 0, Source = [], SDP = [], Candidate = [],
      Id_ = \<lparr>Value = 0, Direction = 0, ImplCode = 0\<rparr>,
      Target = [], PeerType = 0, RemoteRequestType = 0\<rparr>"

section \<open>Buffered channels\<close>

text \<open>
  A Go channel made by \<^verbatim>\<open>make(chan T, n)\<close>: the queued values (oldest first), the capacity
  and whether \<^verbatim>\<open>close\<close> has been called. The two functions below are the attempts a
  \<^verbatim>\<open>select\<close> with a \<^verbatim>\<open>default\<close> branch makes: a send is ready when the buffer has room, a
  receive is ready when the buffer is non-empty or the channel is closed; a send on a
  closed channel panics.
\<close>

record 'a chan =
  buf :: "'a list"
  cap :: nat
  closed :: bool

datatype panic =
    SendOnClosedChannel
  | CloseOfClosedChannel
  | NilPointerDereference

datatype 'a send_result = Sent "'a chan" | SendNotReady | SendPanics

datatype 'a recv_result = Received 'a "'a chan" | ReceivedZero | RecvNotReady

definition try_send :: "'a chan \<Rightarrow> 'a \<Rightarrow> 'a send_result" where
  "try_send c v =
     (if closed c then SendPanics
      else if length (buf c) < cap c then Sent (c\<lparr>buf := buf c @ [v]\<rparr>)
      else SendNotReady)"

definition try_recv :: "'a chan \<Rightarrow> 'a recv_result" where
  "try_recv c =
     (case buf c of
        v # rest \<Rightarrow> Received v (c\<lparr>buf := rest\<rparr>)
      | [] \<Rightarrow> if closed c then ReceivedZero else RecvNotReady)"

section \<open>The data manager (cmd/signaling/data\_manager.go)\<close>

definition LIFE_TIME_IN_SECOND :: int where
  "LIFE_TIME_IN_SECOND = 15"

definition MAX_BUFFER_NUMBER :: nat where
  "MAX_BUFFER_NUMBER = 64"

text \<open>
  The program counter of a goroutine. A call of \<^verbatim>\<open>Set\<close> that runs beside other goroutines
  is cut where the source releases or does not hold the mutex: the unlocked test of line
  73, the locked creation of the channel (74-77), \<^verbatim>\<open>resetAlive\<close> (80), the \<^verbatim>\<open>go\<close> statement
  (83), the \<^verbatim>\<open>select\<close> (101-102) and the \<^verbatim>\<open>resetAlive\<close> after a successful send (104).
  The watchdog (83-97) evaluates its loop condition (87), sleeps and decrements (88-91),
  and calls \<^verbatim>\<open>Clean\<close> (96) once the loop is left. Reading \<^verbatim>\<open>dm.datas[id]\<close> in the
  \<^verbatim>\<open>select\<close> and attempting the send count as one step.
\<close>

datatype set_pc = SetTest | SetMake | SetReset | SetGo | SetSelect | SetResetSent

datatype wd_pc = WdCond | WdSleep | WdClean

datatype goroutine =
    SetCall set_pc string SignalingInfo
  | Watchdog wd_pc string
  | Finished

text \<open>
  \<^verbatim>\<open>DManager\<close> holds the two maps; the mutex is not a field of the model, each critical
  section being one atomic step. A map value of \<^verbatim>\<open>datas\<close> is a reference to a channel; the
  channels themselves live in \<open>chans\<close>, where \<open>next_chan\<close> is the next unused reference,
  and \<open>goroutines\<close> lists every goroutine started so far.
\<close>

record DManager =
  datas :: "string \<rightharpoonup> nat"
  alive :: "string \<rightharpoonup> int"

record runtime = DManager +
  chans :: "nat \<Rightarrow> SignalingInfo chan"
  next_chan :: nat
  goroutines :: "goroutine list"

definition NewDManager :: runtime where
  "NewDManager =
     \<lparr>datas = Map.empty, alive = Map.empty,
      chans = (\<lambda>_. \<lparr>buf = [], cap = 0, closed = False\<rparr>),
      next_chan = 0, goroutines = []\<rparr>"

definition Get :: "runtime \<Rightarrow> string \<Rightarrow> nat option" where
  "Get dm pid = datas dm pid"

definition Clean :: "string \<Rightarrow> runtime \<Rightarrow> panic + runtime" where
  "Clean pid dm =
     (case datas dm pid of
        None \<Rightarrow> Inr (dm\<lparr>datas := (datas dm)(pid := None), alive := (alive dm)(pid := None)\<rparr>)
      | Some r \<Rightarrow>
          if closed (chans dm r) then Inl CloseOfClosedChannel
          else Inr (dm\<lparr>chans := (chans dm)(r := (chans dm r)\<lparr>closed := True\<rparr>),
                       datas := (datas dm)(pid := None),
                       alive := (alive dm)(pid := None)\<rparr>))"

definition resetAlive :: "string \<Rightarrow> runtime \<Rightarrow> runtime" where
  "resetAlive pid dm = dm\<lparr>alive := (alive dm)(pid \<mapsto> LIFE_TIME_IN_SECOND)\<rparr>"

text \<open>Lines 74-77: \<^verbatim>\<open>dm.datas[pid] = make(chan types.SignalingInfo, MAX_BUFFER_NUMBER)\<close>.\<close>

definition make_chan :: "string \<Rightarrow> runtime \<Rightarrow> runtime" where
  "make_chan pid dm =
     dm\<lparr>chans := (chans dm)(next_chan dm := \<lparr>buf = [], cap = MAX_BUFFER_NUMBER, closed = False\<rparr>),
        datas := (datas dm)(pid \<mapsto> next_chan dm),
        next_chan := Suc (next_chan dm)\<rparr>"

text \<open>Line 83: the \<^verbatim>\<open>go\<close> statement starts the watchdog of \<open>pid\<close> at its loop condition.\<close>

definition go_watchdog :: "string \<Rightarrow> runtime \<Rightarrow> runtime" where
  "go_watchdog pid dm = dm\<lparr>goroutines := goroutines dm @ [Watchdog WdCond pid]\<rparr>"

text \<open>
  Lines 101-108 up to the send: \<open>Some dm'\<close> when the value was queued, \<open>None\<close> when the
  \<^verbatim>\<open>default\<close> branch ran (a nil channel is never ready, a full one neither).
\<close>

definition select_send :: "string \<Rightarrow> SignalingInfo \<Rightarrow> runtime \<Rightarrow> panic + runtime option" where
  "select_send pid info dm =
     (case datas dm pid of
        None \<Rightarrow> Inr None
      | Some r \<Rightarrow>
          (case try_send (chans dm r) info of
             SendPanics \<Rightarrow> Inl SendOnClosedChannel
           | SendNotReady \<Rightarrow> Inr None
           | Sent c \<Rightarrow> Inr (Some (dm\<lparr>chans := (chans dm)(r := c)\<rparr>))))"

text \<open>\<^verbatim>\<open>Set\<close> run from its first line to its last with no other goroutine in between.\<close>

definition Set :: "string \<Rightarrow> SignalingInfo \<Rightarrow> runtime \<Rightarrow> panic + runtime" where
  "Set pid info dm =
     (let dm1 = (if datas dm pid = None
                 then go_watchdog pid (resetAlive pid (make_chan pid dm))
                 else dm)
      in case select_send pid info dm1 of
           Inl p \<Rightarrow> Inl p
         | Inr None \<Rightarrow> Inr dm1
         | Inr (Some dm2) \<Rightarrow> Inr (resetAlive pid dm2))"

text \<open>The queue of a peer as \<^verbatim>\<open>Get\<close> shows it: empty when the peer has no channel.\<close>

definition queue :: "runtime \<Rightarrow> string \<Rightarrow> SignalingInfo list" where
  "queue dm pid = (case Get dm pid of None \<Rightarrow> [] | Some r \<Rightarrow> buf (chans dm r))"

definition mailbox_full :: "runtime \<Rightarrow> string \<Rightarrow> bool" where
  "mailbox_full dm pid =
     (case datas dm pid of
        None \<Rightarrow> False
      | Some r \<Rightarrow> \<not> closed (chans dm r) \<and> cap (chans dm r) \<le> length (buf (chans dm r)))"

subsection \<open>Goroutines\<close>

text \<open>Reading a missing key of a Go map yields the zero value.\<close>

definition alive_get :: "runtime \<Rightarrow> string \<Rightarrow> int" where
  "alive_get dm pid = (case alive dm pid of None \<Rightarrow> 0 | Some n \<Rightarrow> n)"

text \<open>
  One step of the watchdog of \<open>pid\<close> (lines 83-97): the goroutine's next state and the
  new data manager. \<^verbatim>\<open>dmc.alive[id]--\<close> writes the key even when it was absent.
\<close>

fun step_watchdog :: "wd_pc \<Rightarrow> string \<Rightarrow> runtime \<Rightarrow> panic + goroutine \<times> runtime" where
  "step_watchdog WdCond pid dm =
     Inr (if 0 < alive_get dm pid then Watchdog WdSleep pid else Watchdog WdClean pid, dm)"
| "step_watchdog WdSleep pid dm =
     Inr (Watchdog WdCond pid, dm\<lparr>alive := (alive dm)(pid \<mapsto> alive_get dm pid - 1)\<rparr>)"
| "step_watchdog WdClean pid dm =
     (case Clean pid dm of Inl p \<Rightarrow> Inl p | Inr dm' \<Rightarrow> Inr (Finished, dm'))"

text \<open>One step of a call of \<^verbatim>\<open>Set\<close> that shares the data manager with other goroutines.\<close>

fun step_Set :: "set_pc \<Rightarrow> string \<Rightarrow> SignalingInfo \<Rightarrow> runtime \<Rightarrow> panic + goroutine \<times> runtime" where
  "step_Set SetTest pid info dm =
     Inr (if datas dm pid = None then SetCall SetMake pid info else SetCall SetSelect pid info, dm)"
| "step_Set SetMake pid info dm = Inr (SetCall SetReset pid info, make_chan pid dm)"
| "step_Set SetReset pid info dm = Inr (SetCall SetGo pid info, resetAlive pid dm)"
| "step_Set SetGo pid info dm = Inr (SetCall SetSelect pid info, go_watchdog pid dm)"
| "step_Set SetSelect pid info dm =
     (case select_send pid info dm of
        Inl p \<Rightarrow> Inl p
      | Inr None \<Rightarrow> Inr (Finished, dm)
      | Inr (Some dm2) \<Rightarrow> Inr (SetCall SetResetSent pid info, dm2))"
| "step_Set SetResetSent pid info dm = Inr (Finished, resetAlive pid dm)"

definition step_goroutine :: "goroutine \<Rightarrow> runtime \<Rightarrow> panic + goroutine \<times> runtime" where
  "step_goroutine g dm =
     (case g of
        SetCall pc pid info \<Rightarrow> step_Set pc pid info dm
      | Watchdog pc pid \<Rightarrow> step_watchdog pc pid dm
      | Finished \<Rightarrow> Inr (Finished, dm))"

text \<open>The scheduler lets goroutine number \<open>i\<close> take one step; a number nobody has is skipped.\<close>

definition step :: "nat \<Rightarrow> runtime \<Rightarrow> panic + runtime" where
  "step i dm =
     (if i < length (goroutines dm)
      then (case step_goroutine (goroutines dm ! i) dm of
              Inl p \<Rightarrow> Inl p
            | Inr (g, dm') \<Rightarrow> Inr (dm'\<lparr>goroutines := (goroutines dm')[i := g]\<rparr>))
      else Inr dm)"

text \<open>
  Lines 57-68 of server.go up to the receive: the \<^verbatim>\<open>select\<close> of the pull handler on
  \<^verbatim>\<open>sv.dm.Get(self_id)\<close>. \<open>None\<close> is the \<^verbatim>\<open>default\<close> branch.
\<close>

definition select_recv :: "string \<Rightarrow> runtime \<Rightarrow> (SignalingInfo \<times> runtime) option" where
  "select_recv pid dm =
     (case Get dm pid of
        None \<Rightarrow> None
      | Some r \<Rightarrow>
          (case try_recv (chans dm r) of
             Received v c \<Rightarrow> Some (v, dm\<lparr>chans := (chans dm)(r := c)\<rparr>)
           | ReceivedZero \<Rightarrow> Some (zero_SignalingInfo, dm)
           | RecvNotReady \<Rightarrow> None))"

text \<open>
  What can happen to the data manager: a push whose \<^verbatim>\<open>Set\<close> runs alone (\<open>Push\<close>), a push
  whose \<^verbatim>\<open>Set\<close> starts as a goroutine of its own and is stepped by the scheduler
  (\<open>GoPush\<close>), a pull (\<open>Pull\<close>), and a step of goroutine \<open>i\<close> (\<open>Step\<close>).
\<close>

datatype event =
    Push string SignalingInfo
  | GoPush string SignalingInfo
  | Pull string
  | Step nat

fun exec :: "event \<Rightarrow> runtime \<Rightarrow> panic + runtime" where
  "exec (Push pid info) dm = Set pid info dm"
| "exec (GoPush pid info) dm =
     Inr (dm\<lparr>goroutines := goroutines dm @ [SetCall SetTest pid info]\<rparr>)"
| "exec (Pull pid) dm = (case select_recv pid dm of None \<Rightarrow> Inr dm | Some (v, dm') \<Rightarrow> Inr dm')"
| "exec (Step i) dm = step i dm"

fun run :: "event list \<Rightarrow> runtime \<Rightarrow> panic + runtime" where
  "run [] dm = Inr dm"
| "run (e # es) dm = (case exec e dm of Inl p \<Rightarrow> Inl p | Inr dm' \<Rightarrow> run es dm')"

text \<open>\<open>n\<close> dequeues in a row as the pull handler makes them, with what each one got.\<close>

fun recv_n :: "nat \<Rightarrow> string \<Rightarrow> runtime \<Rightarrow> SignalingInfo option list \<times> runtime" where
  "recv_n 0 pid dm = ([], dm)"
| "recv_n (Suc n) pid dm =
     (case select_recv pid dm of
        None \<Rightarrow> (case recv_n n pid dm of (vs, dm') \<Rightarrow> (None # vs, dm'))
      | Some (v, dm1) \<Rightarrow> (case recv_n n pid dm1 of (vs, dm') \<Rightarrow> (Some v # vs, dm')))"


text \<open>
  What every state the data manager can reach satisfies: a channel in \<^verbatim>\<open>datas\<close> was made
  earlier, is open and has capacity 64; no two peers share a channel; no buffer holds
  more than its capacity.
\<close>

definition well_formed :: "runtime \<Rightarrow> bool" where
  "well_formed dm =
     ((\<forall>p r. datas dm p = Some r \<longrightarrow>
          r < next_chan dm \<and> \<not> closed (chans dm r) \<and> cap (chans dm r) = MAX_BUFFER_NUMBER)
      \<and> (\<forall>p q r. datas dm p = Some r \<longrightarrow> datas dm q = Some r \<longrightarrow> p = q)
      \<and> (\<forall>r. length (buf (chans dm r)) \<le> cap (chans dm r)))"


subsection \<open>Schedules that leave a peer idle\<close>







subsection \<open>One watchdog for each live peer\<close>

text \<open>
  A schedule is serial when every push runs its \<^verbatim>\<open>Set\<close> alone (no \<open>GoPush\<close>). The watchdogs
  of a peer are the goroutines that run the loop of lines 83-97 for it and have not
  finished.
\<close>

definition is_GoPush :: "event \<Rightarrow> bool" where
  "is_GoPush e = (case e of GoPush q info \<Rightarrow> True | _ \<Rightarrow> False)"

definition serial :: "event list \<Rightarrow> bool" where
  "serial es = (\<forall>e \<in> set es. \<not> is_GoPush e)"

text \<open>
  The parts of the invariant of serial runs: no peer has two watchdogs; the peer of a
  watchdog is in both maps with a counter between 0 and 15, above 0 while the watchdog
  sleeps; every peer in \<^verbatim>\<open>datas\<close> has a watchdog; every peer in \<^verbatim>\<open>alive\<close> is in \<^verbatim>\<open>datas\<close>;
  no call of \<^verbatim>\<open>Set\<close> is under way.
\<close>

definition wd_unique :: "runtime \<Rightarrow> bool" where
  "wd_unique dm =
     (\<forall>i j pc pc' p. i < length (goroutines dm) \<and> j < length (goroutines dm)
          \<and> goroutines dm ! i = Watchdog pc p \<and> goroutines dm ! j = Watchdog pc' p \<longrightarrow> i = j)"

definition wd_counter :: "runtime \<Rightarrow> bool" where
  "wd_counter dm =
     (\<forall>i pc p. i < length (goroutines dm) \<and> goroutines dm ! i = Watchdog pc p \<longrightarrow>
            (\<exists>r c. datas dm p = Some r \<and> alive dm p = Some c \<and> 0 \<le> c
                  \<and> c \<le> LIFE_TIME_IN_SECOND \<and> (pc = WdSleep \<longrightarrow> 0 < c)))"

definition wd_exists :: "runtime \<Rightarrow> bool" where
  "wd_exists dm =
     (\<forall>p r. datas dm p = Some r \<longrightarrow>
            (\<exists>i pc. i < length (goroutines dm) \<and> goroutines dm ! i = Watchdog pc p))"

definition alive_in_datas :: "runtime \<Rightarrow> bool" where
  "alive_in_datas dm = (\<forall>p c. alive dm p = Some c \<longrightarrow> datas dm p \<noteq> None)"

definition no_SetCall :: "runtime \<Rightarrow> bool" where
  "no_SetCall dm =
     (\<forall>i pc p info. i < length (goroutines dm) \<longrightarrow> goroutines dm ! i \<noteq> SetCall pc p info)"

definition one_watchdog :: "runtime \<Rightarrow> bool" where
  "one_watchdog dm =
     (wd_unique dm \<and> wd_counter dm \<and> wd_exists dm \<and> alive_in_datas dm \<and> no_SetCall dm)"

definition watchdogs_of :: "runtime \<Rightarrow> string \<Rightarrow> nat list" where
  "watchdogs_of dm pid =
     filter (\<lambda>i. case goroutines dm ! i of Watchdog pc q \<Rightarrow> q = pid | _ \<Rightarrow> False)
       [0..<length (goroutines dm)]"


text \<open>
  Two pushes for the peer \<open>x\<close>, which has no mailbox, served by two goroutines: both
  evaluate the test of line 73 before either creates the channel, then each runs to its
  end. Afterwards the two watchdogs take turns: the first runs its loop 14 times, then
  both find the counter at 1 and both decrement it.
\<close>

definition offer :: SignalingInfo where
  "offer = zero_SignalingInfo\<lparr>Flag := 3, Source := ''a'', Target := ''x''\<rparr>"

definition candidate :: SignalingInfo where
  "candidate = zero_SignalingInfo\<lparr>Flag := 1, Source := ''b'', Target := ''x''\<rparr>"

definition two_pushes :: "event list" where
  "two_pushes =
     [GoPush ''x'' offer, GoPush ''x'' candidate,
      Step 0, Step 1,
      Step 0, Step 0, Step 0, Step 0, Step 0,
      Step 1, Step 1, Step 1, Step 1, Step 1]"

definition both_count_down :: "event list" where
  "both_count_down =
     concat (replicate 14 [Step 2, Step 2]) @ [Step 2, Step 3, Step 2, Step 3]"


section \<open>The HTTP handlers (cmd/signaling/server.go)\<close>

datatype error = Error string

record request =
  vars :: "string \<rightharpoonup> string"
  req_body :: "byte list"

record response =
  status :: nat
  header :: "(string \<times> string) list"
  body :: "byte list"

text \<open>\<^verbatim>\<open>mux.Vars(r)[k]\<close>: the empty string when the route has no such variable.\<close>

definition mux_var :: "request \<Rightarrow> string \<Rightarrow> string" where
  "mux_var r k = (case vars r k of None \<Rightarrow> [] | Some v \<Rightarrow> v)"

text \<open>A handler that returns without writing a status answers 200.\<close>

definition StatusOK :: nat where
  "StatusOK = 200"

definition StatusBadRequest :: nat where
  "StatusBadRequest = 400"

definition empty_response :: response where
  "empty_response = \<lparr>status = StatusOK, header = [], body = []\<rparr>"

text \<open>
  \<^verbatim>\<open>encoding/gob\<close> is not part of the repository: the handlers take the encoder and the
  decoder as parameters. \<open>enc v\<close> is \<open>Inr bs\<close> when \<^verbatim>\<open>Encode(v)\<close> wrote \<open>bs\<close> and returned
  nil, and \<open>Inl e\<close> when it returned the error \<open>e\<close>, which the handler only logs.
\<close>

definition pull :: "(SignalingInfo \<Rightarrow> error + byte list) \<Rightarrow> runtime \<Rightarrow> request \<Rightarrow> runtime \<times> response" where
  "pull enc dm r =
     (let self_id = mux_var r ''self_id'' in
      case select_recv self_id dm of
        Some (v, dm') \<Rightarrow>
          (dm', \<lparr>status = StatusOK,
                 header = [(''Content-Type'', ''application/binary'')],
                 body = (case enc v of Inl e \<Rightarrow> [] | Inr bs \<Rightarrow> bs)\<rparr>)
      | None \<Rightarrow> (dm, empty_response))"

text \<open>
  \<^verbatim>\<open>http.Error(w, http.StatusText(http.StatusBadRequest), http.StatusBadRequest)\<close> answers
  400 with a plain-text body.
\<close>

definition bad_request :: response where
  "bad_request =
     \<lparr>status = StatusBadRequest,
      header = [(''Content-Type'', ''text/plain; charset=utf-8''),
                (''X-Content-Type-Options'', ''nosniff'')],
      body = map (of_nat \<circ> of_char) ''Bad Request\<newline>''\<rparr>"

definition push :: "(byte list \<Rightarrow> error + SignalingInfo) \<Rightarrow> runtime \<Rightarrow> request \<Rightarrow> panic + runtime \<times> response" where
  "push dec dm r =
     (case dec (req_body r) of
        Inl e \<Rightarrow> Inr (dm, bad_request)
      | Inr info \<Rightarrow>
          (let target_id = mux_var r ''target_id'' in
           case Set target_id info dm of
             Inl p \<Rightarrow> Inl p
           | Inr dm' \<Rightarrow> Inr (dm', empty_response)))"

section \<open>The request sent to the daemon (pkg/impl/sender.go)\<close>

record Sender =
  Type :: int32
  PairId :: "byte list"
  Detach :: bool
  LocalEntry :: string
  Payload :: "byte list"
  Status :: int32

text \<open>What \<^verbatim>\<open>NewSender\<close> reads of the implementation it is given.\<close>

record Impl =
  Code :: int32
  HostId :: string
  ImplPairId :: string

text \<open>\<^verbatim>\<open>fmt.Sprintf("%d", n)\<close>.\<close>

fun decimal :: "nat \<Rightarrow> string" where
  "decimal n =
     (if n < 10 then [char_of (48 + n)]
      else decimal (n div 10) @ [char_of (48 + n mod 10)])"

declare decimal.simps [simp del]

definition Sprintf_d :: "int \<Rightarrow> string" where
  "Sprintf_d i = (if i < 0 then CHR ''-'' # decimal (nat (- i)) else decimal (nat i))"

definition bytes_of :: "string \<Rightarrow> byte list" where
  "bytes_of s = map (of_nat \<circ> of_char) s"

text \<open>
  \<^verbatim>\<open>flagLen\<close> is a constant of impl.go, which is not among the sources: it is a parameter.
  \<open>payload\<close> is what gob-encoding the implementation gave, and \<open>port\<close> the
  \<^verbatim>\<open>LocalTCPPort\<close> of the configuration. \<open>None\<close> is the nil the source returns when the
  encoding fails. On \<^verbatim>\<open>int32\<close>, \<^verbatim>\<open><<\<close> drops the bits shifted out and \<^verbatim>\<open>>>\<close> is the
  arithmetic shift.
\<close>

definition NewSender :: "nat \<Rightarrow> (error + byte list) \<Rightarrow> int32 \<Rightarrow> Impl \<Rightarrow> int32 \<Rightarrow> Sender option" where
  "NewSender flagLen payload port imp optCode =
     (case payload of
        Inl err \<Rightarrow> None
      | Inr bs \<Rightarrow>
          Some \<lparr>Type = push_bit flagLen (Code imp) OR optCode,
                PairId = bytes_of (ImplPairId imp),
                Detach = False,
                LocalEntry = ''127.0.0.1:'' @ Sprintf_d (sint port),
                Payload = bs,
                Status = 0\<rparr>)"

definition GetAppCode :: "nat \<Rightarrow> Sender \<Rightarrow> int32" where
  "GetAppCode flagLen sender = signed_drop_bit flagLen (Type sender)"

definition GetOptionCode :: "Sender \<Rightarrow> int32" where
  "GetOptionCode sender = Type sender AND 0xff"

text \<open>
  A \<^verbatim>\<open>net.Conn\<close> is an interface value: nil, or a connection, named here by a number.
\<close>

datatype net_Conn = NilConn | TCPConn nat

text \<open>
  \<^verbatim>\<open>Send\<close> (lines 323-352). The network and gob are parameters: \<open>dial\<close> is \<^verbatim>\<open>net.Dial\<close> on
  the address, \<open>enc\<close> the error of encoding the request onto the connection (\<open>None\<close> for
  nil), and \<open>dec\<close> the error of decoding the reply together with the sender as the decoder
  left it, since \<^verbatim>\<open>Decode(sender)\<close> writes into the request itself. The result is the pair
  the source returns and the sender afterwards.
\<close>

definition Send ::
  "(string \<Rightarrow> error + nat) \<Rightarrow> (nat \<Rightarrow> Sender \<Rightarrow> error option)
     \<Rightarrow> (nat \<Rightarrow> Sender \<Rightarrow> error option \<times> Sender) \<Rightarrow> Sender
     \<Rightarrow> (net_Conn \<times> error option) \<times> Sender" where
  "Send dial enc dec sender =
     (case dial (LocalEntry sender) of
        Inl err \<Rightarrow> ((NilConn, Some err), sender)
      | Inr c \<Rightarrow>
          (case enc c sender of
             Some err \<Rightarrow> ((NilConn, Some err), sender)
           | None \<Rightarrow>
               (case dec c sender of
                  (Some err, sender') \<Rightarrow> ((NilConn, Some err), sender')
                | (None, sender') \<Rightarrow>
                    if Status sender' \<noteq> 0
                    then ((NilConn, Some (Error ''response error'')), sender')
                    else ((TCPConn c, None), sender'))))"

definition SendDetach ::
  "(string \<Rightarrow> error + nat) \<Rightarrow> (nat \<Rightarrow> Sender \<Rightarrow> error option)
     \<Rightarrow> (nat \<Rightarrow> Sender \<Rightarrow> error option \<times> Sender) \<Rightarrow> Sender
     \<Rightarrow> (net_Conn \<times> error option) \<times> Sender" where
  "SendDetach dial enc dec sender = Send dial enc dec (sender\<lparr>Detach := True\<rparr>)"

section \<open>The base implementation (pkg/impl/impl\_base.go)\<close>

text \<open>
  The field \<^verbatim>\<open>conn\<close> is a pointer to an interface value: \<open>None\<close> is the nil pointer. The
  mutex is left out: every method runs alone.
\<close>

record BaseImpl =
  HId :: string
  conn :: "net_Conn option"
  Parent :: string
  PId :: string
  ConnectNow :: bool

definition NewBaseImpl :: "string \<Rightarrow> BaseImpl" where
  "NewBaseImpl hid = \<lparr>HId = hid, conn = None, Parent = [], PId = [], ConnectNow = True\<rparr>"

definition NoNeedConnect :: "BaseImpl \<Rightarrow> BaseImpl" where
  "NoNeedConnect base = base\<lparr>ConnectNow := False\<rparr>"

definition SetHostId :: "string \<Rightarrow> BaseImpl \<Rightarrow> BaseImpl" where
  "SetHostId s base = base\<lparr>HId := s\<rparr>"

definition SetPairId :: "string \<Rightarrow> BaseImpl \<Rightarrow> BaseImpl" where
  "SetPairId s base = base\<lparr>PId := s\<rparr>"

definition SetParentId :: "string \<Rightarrow> BaseImpl \<Rightarrow> BaseImpl" where
  "SetParentId s base = base\<lparr>Parent := s\<rparr>"

definition SetConn :: "net_Conn \<Rightarrow> BaseImpl \<Rightarrow> BaseImpl" where
  "SetConn c base = base\<lparr>conn := Some c\<rparr>"

text \<open>The four accessors dereference the pointer with no test.\<close>

definition Conn :: "BaseImpl \<Rightarrow> panic + net_Conn" where
  "Conn base = (case conn base of None \<Rightarrow> Inl NilPointerDereference | Some c \<Rightarrow> Inr c)"

definition Reader :: "BaseImpl \<Rightarrow> panic + net_Conn" where
  "Reader base = (case conn base of None \<Rightarrow> Inl NilPointerDereference | Some c \<Rightarrow> Inr c)"

definition Writer :: "BaseImpl \<Rightarrow> panic + net_Conn" where
  "Writer base = (case conn base of None \<Rightarrow> Inl NilPointerDereference | Some c \<Rightarrow> Inr c)"

definition ReadWriteCloser :: "BaseImpl \<Rightarrow> panic + net_Conn" where
  "ReadWriteCloser base = (case conn base of None \<Rightarrow> Inl NilPointerDereference | Some c \<Rightarrow> Inr c)"

text \<open>
  \<^verbatim>\<open>Close\<close> tests the pointer: the result is the connection it closed, if any. Calling
  \<^verbatim>\<open>Close\<close> on a nil interface value behind a non-nil pointer panics.
\<close>

definition Close :: "BaseImpl \<Rightarrow> panic + nat option" where
  "Close base =
     (case conn base of
        None \<Rightarrow> Inr None
      | Some NilConn \<Rightarrow> Inl NilPointerDereference
      | Some (TCPConn c) \<Rightarrow> Inr (Some c))"

text \<open>The methods that change a \<^verbatim>\<open>BaseImpl\<close>, \<^verbatim>\<open>SetConn\<close> apart.\<close>

datatype base_op =
    OpInit
  | OpNoNeedConnect
  | OpSetHostId string
  | OpSetPairId string
  | OpSetParentId string

fun apply_op :: "base_op \<Rightarrow> BaseImpl \<Rightarrow> BaseImpl" where
  "apply_op OpInit base = base"
| "apply_op OpNoNeedConnect base = NoNeedConnect base"
| "apply_op (OpSetHostId s) base = SetHostId s base"
| "apply_op (OpSetPairId s) base = SetPairId s base"
| "apply_op (OpSetParentId s) base = SetParentId s base"

fun apply_ops :: "base_op list \<Rightarrow> BaseImpl \<Rightarrow> BaseImpl" where
  "apply_ops [] base = base"
| "apply_ops (x # xs) base = apply_ops xs (apply_op x base)"

section \<open>Properties of the data manager\<close>

subsection \<open>Reachable states are well formed and no step panics\<close>

lemma well_formed_NewDManager: "well_formed NewDManager"
  by (simp add: well_formed_def NewDManager_def)

lemma well_formed_make_chan: "well_formed dm \<Longrightarrow> well_formed (make_chan pid dm)"
  unfolding well_formed_def make_chan_def
  by (auto simp: less_Suc_eq split: if_splits)

lemma well_formed_resetAlive: "well_formed dm \<Longrightarrow> well_formed (resetAlive pid dm)"
  by (simp add: well_formed_def resetAlive_def)

lemma well_formed_go_watchdog: "well_formed dm \<Longrightarrow> well_formed (go_watchdog pid dm)"
  by (simp add: well_formed_def go_watchdog_def)

lemma well_formed_goroutines_update: "well_formed (dm\<lparr>goroutines := gs\<rparr>) = well_formed dm"
  by (simp add: well_formed_def)

lemma well_formed_alive_update: "well_formed (dm\<lparr>alive := a\<rparr>) = well_formed dm"
  by (simp add: well_formed_def)

lemma well_formed_select_send: "well_formed dm \<Longrightarrow> select_send pid info dm = Inr (Some dm') \<Longrightarrow> well_formed dm'"
  unfolding well_formed_def select_send_def try_send_def
  by (auto split: option.splits if_splits)

lemma select_send_no_panic: "well_formed dm \<Longrightarrow> select_send pid info dm \<noteq> Inl p"
  unfolding well_formed_def select_send_def try_send_def
  by (auto split: option.splits if_splits)

lemma well_formed_Clean: "well_formed dm \<Longrightarrow> Clean pid dm = Inr dm' \<Longrightarrow> well_formed dm'"
  unfolding well_formed_def Clean_def
  by (auto split: option.splits if_splits)

lemma Clean_no_panic: "well_formed dm \<Longrightarrow> Clean pid dm \<noteq> Inl p"
  unfolding well_formed_def Clean_def
  by (auto split: option.splits if_splits)

lemma well_formed_select_recv: "well_formed dm \<Longrightarrow> select_recv pid dm = Some (v, dm') \<Longrightarrow> well_formed dm'"
  unfolding well_formed_def select_recv_def try_recv_def Get_def
  by (fastforce split: option.splits if_splits list.splits)

lemma well_formed_Set: "well_formed dm \<Longrightarrow> Set pid info dm = Inr dm' \<Longrightarrow> well_formed dm'"
proof -
  assume w: "well_formed dm" and s: "Set pid info dm = Inr dm'"
  define dm1 where
    "dm1 = (if datas dm pid = None then go_watchdog pid (resetAlive pid (make_chan pid dm)) else dm)"
  have w1: "well_formed dm1"
    using w by (simp add: dm1_def well_formed_resetAlive well_formed_go_watchdog well_formed_make_chan)
  show ?thesis
  proof (cases "select_send pid info dm1")
    case (Inl p)
    with s show ?thesis by (simp add: Set_def dm1_def)
  next
    case (Inr o1)
    show ?thesis
    proof (cases o1)
      case None
      with Inr s w1 show ?thesis by (simp add: Set_def dm1_def)
    next
      case (Some dm2)
      with Inr w1 have "well_formed dm2" by (auto dest: well_formed_select_send)
      with Some Inr s show ?thesis by (auto simp: Set_def dm1_def well_formed_resetAlive)
    qed
  qed
qed

lemma Set_no_panic: "well_formed dm \<Longrightarrow> Set pid info dm \<noteq> Inl p"
  unfolding Set_def Let_def
  by (auto split: sum.splits option.splits if_splits
      simp: select_send_no_panic well_formed_resetAlive well_formed_go_watchdog well_formed_make_chan)

lemma well_formed_step_watchdog: "well_formed dm \<Longrightarrow> step_watchdog pc pid dm = Inr (g, dm') \<Longrightarrow> well_formed dm'"
  by (cases pc) (auto simp: well_formed_alive_update split: sum.splits dest: well_formed_Clean)

lemma well_formed_step_Set: "well_formed dm \<Longrightarrow> step_Set pc pid info dm = Inr (g, dm') \<Longrightarrow> well_formed dm'"
  by (cases pc) (auto split: sum.splits option.splits
      dest: well_formed_select_send intro: well_formed_resetAlive well_formed_go_watchdog well_formed_make_chan)

lemma well_formed_step: "well_formed dm \<Longrightarrow> step i dm = Inr dm' \<Longrightarrow> well_formed dm'"
  unfolding step_def step_goroutine_def
  by (auto simp: well_formed_goroutines_update split: if_splits sum.splits goroutine.splits
      dest: well_formed_step_watchdog well_formed_step_Set)

lemma well_formed_exec: "well_formed dm \<Longrightarrow> exec e dm = Inr dm' \<Longrightarrow> well_formed dm'"
  by (cases e) (auto simp: well_formed_goroutines_update split: option.splits dest: well_formed_Set well_formed_step well_formed_select_recv)

lemma well_formed_run: "well_formed dm \<Longrightarrow> run es dm = Inr dm' \<Longrightarrow> well_formed dm'"
  by (induction es arbitrary: dm) (auto split: sum.splits dest: well_formed_exec)

lemma run_append: "run (xs @ ys) dm = (case run xs dm of Inl p \<Rightarrow> Inl p | Inr dm' \<Rightarrow> run ys dm')"
  by (induction xs arbitrary: dm) (auto split: sum.splits)

lemma exec_no_panic: "well_formed dm \<Longrightarrow> \<exists>dm'. exec e dm = Inr dm'"
proof (cases e)
  case (Push pid info)
  assume "well_formed dm"
  then show ?thesis using Push Set_no_panic[of dm pid info] by (cases "Set pid info dm") auto
next
  case (Step i)
  assume w: "well_formed dm"
  show ?thesis
  proof (cases "i < length (goroutines dm)")
    case False
    then show ?thesis using Step by (simp add: step_def)
  next
    case True
    show ?thesis
    proof (cases "goroutines dm ! i")
      case (SetCall pc pid info)
      then show ?thesis using True Step w select_send_no_panic[of dm pid info]
        by (cases pc; cases "select_send pid info dm")
           (auto simp: step_def step_goroutine_def split: option.splits)
    next
      case (Watchdog pc pid)
      then show ?thesis using True Step w Clean_no_panic[of dm pid]
        by (cases pc; cases "Clean pid dm") (auto simp: step_def step_goroutine_def)
    next
      case Finished
      then show ?thesis using True Step by (simp add: step_def step_goroutine_def)
    qed
  qed
qed (auto split: option.splits)

lemma run_no_panic: "well_formed dm \<Longrightarrow> \<exists>dm'. run es dm = Inr dm'"
proof (induction es arbitrary: dm)
  case Nil
  then show ?case by simp
next
  case (Cons e es)
  from exec_no_panic[OF Cons.prems] obtain dm1 where e: "exec e dm = Inr dm1" by blast
  with Cons.prems have "well_formed dm1" by (rule well_formed_exec)
  from Cons.IH[OF this] e show ?case by simp
qed

lemma queue_Set:
  assumes "well_formed dm"
  shows "\<exists>dm'. Set pid info dm = Inr dm' \<and>
           queue dm' pid = (if length (queue dm pid) < MAX_BUFFER_NUMBER then queue dm pid @ [info] else queue dm pid)"
proof (cases "datas dm pid")
  case None
  then show ?thesis
    by (simp add: Set_def Let_def select_send_def try_send_def make_chan_def resetAlive_def
        go_watchdog_def queue_def Get_def MAX_BUFFER_NUMBER_def)
next
  case (Some r)
  with assms have "\<not> closed (chans dm r)" "cap (chans dm r) = MAX_BUFFER_NUMBER"
    by (auto simp: well_formed_def)
  with Some show ?thesis
    by (simp add: Set_def Let_def select_send_def try_send_def resetAlive_def queue_def Get_def)
qed


lemma length_queue_le: "well_formed dm \<Longrightarrow> length (queue dm p) \<le> MAX_BUFFER_NUMBER"
  unfolding well_formed_def queue_def Get_def
  by (cases "datas dm p") (auto, metis)

lemma queue_Pushes:
  assumes "well_formed dm"
  shows "\<exists>dm'. run (map (Push pid) xs) dm = Inr dm' \<and>
           queue dm' pid = take MAX_BUFFER_NUMBER (queue dm pid @ xs)"
  using assms
proof (induction xs arbitrary: dm)
  case Nil
  then show ?case using length_queue_le[of dm pid] by simp
next
  case (Cons x xs)
  from queue_Set[OF Cons.prems, of pid x] obtain dm1 where
    s: "Set pid x dm = Inr dm1" and
    q: "queue dm1 pid = (if length (queue dm pid) < MAX_BUFFER_NUMBER then queue dm pid @ [x] else queue dm pid)"
    by blast
  have w1: "well_formed dm1" using Cons.prems s by (rule well_formed_Set)
  from Cons.IH[OF w1] obtain dm' where
    r: "run (map (Push pid) xs) dm1 = Inr dm'" and
    q': "queue dm' pid = take MAX_BUFFER_NUMBER (queue dm1 pid @ xs)"
    by blast
  have "take MAX_BUFFER_NUMBER (queue dm1 pid @ xs) = take MAX_BUFFER_NUMBER (queue dm pid @ x # xs)"
  proof (cases "length (queue dm pid) < MAX_BUFFER_NUMBER")
    case True
    then show ?thesis using q by simp
  next
    case False
    with length_queue_le[OF Cons.prems, of pid] have "length (queue dm pid) = MAX_BUFFER_NUMBER"
      by simp
    then show ?thesis using q by simp
  qed
  with r q' s show ?case by simp
qed

lemma select_recv_empty: "well_formed dm \<Longrightarrow> queue dm pid = [] \<Longrightarrow> select_recv pid dm = None"
  unfolding well_formed_def queue_def Get_def select_recv_def try_recv_def
  by (auto split: option.splits)

lemma select_recv_Cons:
  assumes "well_formed dm" "queue dm pid = v # rest"
  shows "\<exists>dm'. select_recv pid dm = Some (v, dm') \<and> queue dm' pid = rest
           \<and> (\<forall>q. q \<noteq> pid \<longrightarrow> queue dm' q = queue dm q)
           \<and> datas dm' = datas dm \<and> alive dm' = alive dm \<and> goroutines dm' = goroutines dm"
proof -
  from assms(2) obtain r where r: "datas dm pid = Some r" "buf (chans dm r) = v # rest"
    by (auto simp: queue_def Get_def split: option.splits)
  have "\<And>q. q \<noteq> pid \<Longrightarrow> datas dm q \<noteq> Some r"
    using assms(1) r(1) by (auto simp: well_formed_def)
  then show ?thesis using r
    by (auto simp: select_recv_def try_recv_def Get_def queue_def split: option.splits)
qed

lemma recv_n_queue:
  assumes "well_formed dm" "n \<le> length (queue dm pid)"
  shows "\<exists>dm'. recv_n n pid dm = (map Some (take n (queue dm pid)), dm') \<and>
           queue dm' pid = drop n (queue dm pid) \<and> well_formed dm'"
  using assms
proof (induction n arbitrary: dm)
  case 0
  then show ?case by simp
next
  case (Suc n)
  then obtain v rest where q: "queue dm pid = v # rest" by (cases "queue dm pid") auto
  from select_recv_Cons[OF Suc.prems(1) q] obtain dm1 where
    s: "select_recv pid dm = Some (v, dm1)" and q1: "queue dm1 pid = rest" by blast
  have w1: "well_formed dm1" using Suc.prems(1) s by (rule well_formed_select_recv)
  have "n \<le> length (queue dm1 pid)" using Suc.prems(2) q q1 by simp
  from Suc.IH[OF w1 this] obtain dm' where
    "recv_n n pid dm1 = (map Some (take n (queue dm1 pid)), dm')"
    "queue dm' pid = drop n (queue dm1 pid)" "well_formed dm'" by blast
  then show ?case using s q q1 by simp
qed


lemma Set_frame:
  assumes "well_formed dm" "Set pid info dm = Inr dm'" "q \<noteq> pid"
  shows "queue dm' q = queue dm q"
proof (cases "datas dm pid")
  case None
  have "\<And>r. datas dm q = Some r \<Longrightarrow> r \<noteq> next_chan dm"
    using assms(1) by (auto simp: well_formed_def)
  then show ?thesis using assms(2,3) None
    by (auto simp: Set_def Let_def select_send_def try_send_def make_chan_def resetAlive_def
        go_watchdog_def queue_def Get_def MAX_BUFFER_NUMBER_def split: option.splits)
next
  case (Some r)
  have "datas dm q \<noteq> Some r"
    using assms(1,3) Some by (auto simp: well_formed_def)
  then show ?thesis using assms(2,3) Some
    by (auto simp: Set_def Let_def select_send_def try_send_def resetAlive_def
        queue_def Get_def split: option.splits if_splits)
qed


subsection \<open>The bound of a mailbox\<close>

text \<open>
  C1: in every state the data manager reaches, whatever the interleaving, no mailbox holds
  more than 64 envelopes. When 64 envelopes \<open>xs\<close> and then a 65th \<open>x\<close> are pushed to a peer
  whose mailbox is absent or empty, with no dequeue in between, the pushes return, the
  mailbox holds exactly \<open>xs\<close>, the next 64 dequeues yield \<open>xs\<close> in the order of the pushes,
  and a further dequeue finds nothing: \<open>x\<close> was dropped.
\<close>

theorem mailbox_holds_first_64:
  assumes "run es NewDManager = Inr dm" and "queue dm pid = []" and "length xs = MAX_BUFFER_NUMBER"
  shows "length (queue dm p) \<le> MAX_BUFFER_NUMBER \<and>
         (\<exists>dm1 dm2. run (map (Push pid) (xs @ [x])) dm = Inr dm1 \<and> queue dm1 pid = xs \<and>
            recv_n MAX_BUFFER_NUMBER pid dm1 = (map Some xs, dm2) \<and> select_recv pid dm2 = None)"
proof -
  have w: "well_formed dm" using well_formed_NewDManager assms(1) by (rule well_formed_run)
  from queue_Pushes[OF w, of pid "xs @ [x]"] obtain dm1 where
    r: "run (map (Push pid) (xs @ [x])) dm = Inr dm1" and
    q: "queue dm1 pid = take MAX_BUFFER_NUMBER (queue dm pid @ xs @ [x])" by blast
  have q1: "queue dm1 pid = xs" using q assms(2,3) by simp
  have w1: "well_formed dm1" using w r by (rule well_formed_run)
  from recv_n_queue[OF w1, of MAX_BUFFER_NUMBER pid] q1 assms(3) obtain dm2 where
    d: "recv_n MAX_BUFFER_NUMBER pid dm1 = (map Some xs, dm2)" "queue dm2 pid = []" "well_formed dm2"
    by auto
  from select_recv_empty[OF d(3) d(2)] r q1 d(1) length_queue_le[OF w, of p]
  show ?thesis by blast
qed

theorem mailbox_holds_first_64_witness:
  "run [] NewDManager = Inr NewDManager \<and> queue NewDManager ''b'' = []
   \<and> length (map (\<lambda>n. zero_SignalingInfo\<lparr>Flag := int n\<rparr>) [0..<64]) = MAX_BUFFER_NUMBER
   \<and> length (queue NewDManager ''a'') \<le> MAX_BUFFER_NUMBER
   \<and> (\<exists>dm1 dm2.
         run (map (Push ''b'')
                (map (\<lambda>n. zero_SignalingInfo\<lparr>Flag := int n\<rparr>) [0..<64]
                 @ [zero_SignalingInfo\<lparr>Flag := 64\<rparr>])) NewDManager = Inr dm1
         \<and> queue dm1 ''b'' = map (\<lambda>n. zero_SignalingInfo\<lparr>Flag := int n\<rparr>) [0..<64]
         \<and> recv_n MAX_BUFFER_NUMBER ''b'' dm1
             = (map Some (map (\<lambda>n. zero_SignalingInfo\<lparr>Flag := int n\<rparr>) [0..<64]), dm2)
         \<and> select_recv ''b'' dm2 = None)"
proof -
  have r: "run [] NewDManager = Inr NewDManager" by simp
  have q: "queue NewDManager ''b'' = []" by (simp add: queue_def Get_def NewDManager_def)
  have l: "length (map (\<lambda>n. zero_SignalingInfo\<lparr>Flag := int n\<rparr>) [0..<64]) = MAX_BUFFER_NUMBER"
    by (simp add: MAX_BUFFER_NUMBER_def)
  from mailbox_holds_first_64 [OF r q l, of "''a''" "zero_SignalingInfo\<lparr>Flag := 64\<rparr>"] r q l
  show ?thesis by blast
qed

subsection \<open>The frame of Set\<close>

text \<open>
  C7: a call of \<^verbatim>\<open>Set\<close> that finds the peer's FIFO full returns the state it was given, so
  the queue and the counter are untouched; a call that returns from any other state has
  appended its envelope to the peer's queue and left the counter at 15; and \<^verbatim>\<open>Set\<close> always
  returns, unless the map holds a closed channel, which no reachable state does
  (\<open>Set_no_panic\<close>).
\<close>

theorem Set_resets_or_drops:
  "(mailbox_full dm pid \<longrightarrow> Set pid info dm = Inr dm)
   \<and> (\<forall>dm'. Set pid info dm = Inr dm' \<and> \<not> mailbox_full dm pid
         \<longrightarrow> queue dm' pid = queue dm pid @ [info] \<and> alive dm' pid = Some LIFE_TIME_IN_SECOND)
   \<and> (\<forall>p. Set pid info dm = Inl p \<longrightarrow> (\<exists>r. datas dm pid = Some r \<and> closed (chans dm r)))"
proof (cases "datas dm pid")
  case None
  then show ?thesis
    by (simp add: Set_def Let_def select_send_def try_send_def make_chan_def resetAlive_def
        go_watchdog_def queue_def Get_def MAX_BUFFER_NUMBER_def mailbox_full_def)
next
  case (Some r)
  then show ?thesis
    by (auto simp: Set_def Let_def select_send_def try_send_def resetAlive_def
        queue_def Get_def mailbox_full_def)
qed


theorem Set_resets_or_drops_witness:
  "mailbox_full
     \<lparr>datas = [''b'' \<mapsto> 0], alive = [''b'' \<mapsto> 7],
      chans = (\<lambda>_. \<lparr>buf = [zero_SignalingInfo], cap = 1, closed = False\<rparr>),
      next_chan = 1, goroutines = [Watchdog WdSleep ''b'']\<rparr> ''b''
   \<and> Set ''b'' (zero_SignalingInfo\<lparr>Flag := 3\<rparr>)
       \<lparr>datas = [''b'' \<mapsto> 0], alive = [''b'' \<mapsto> 7],
        chans = (\<lambda>_. \<lparr>buf = [zero_SignalingInfo], cap = 1, closed = False\<rparr>),
        next_chan = 1, goroutines = [Watchdog WdSleep ''b'']\<rparr>
     = Inr \<lparr>datas = [''b'' \<mapsto> 0], alive = [''b'' \<mapsto> 7],
            chans = (\<lambda>_. \<lparr>buf = [zero_SignalingInfo], cap = 1, closed = False\<rparr>),
            next_chan = 1, goroutines = [Watchdog WdSleep ''b'']\<rparr>
   \<and> \<not> mailbox_full
     \<lparr>datas = [''b'' \<mapsto> 0], alive = [''b'' \<mapsto> 7],
      chans = (\<lambda>_. \<lparr>buf = [zero_SignalingInfo], cap = 64, closed = False\<rparr>),
      next_chan = 1, goroutines = [Watchdog WdSleep ''b'']\<rparr> ''b''
   \<and> (\<exists>dm'. Set ''b'' (zero_SignalingInfo\<lparr>Flag := 3\<rparr>)
       \<lparr>datas = [''b'' \<mapsto> 0], alive = [''b'' \<mapsto> 7],
        chans = (\<lambda>_. \<lparr>buf = [zero_SignalingInfo], cap = 64, closed = False\<rparr>),
        next_chan = 1, goroutines = [Watchdog WdSleep ''b'']\<rparr> = Inr dm'
      \<and> queue dm' ''b'' = [zero_SignalingInfo, zero_SignalingInfo\<lparr>Flag := 3\<rparr>]
      \<and> alive dm' ''b'' = Some LIFE_TIME_IN_SECOND)"
proof -
  let ?e = "zero_SignalingInfo\<lparr>Flag := 3\<rparr>"
  let ?full = "\<lparr>datas = [''b'' \<mapsto> 0], alive = [''b'' \<mapsto> 7],
      chans = (\<lambda>_. \<lparr>buf = [zero_SignalingInfo], cap = 1, closed = False\<rparr>),
      next_chan = 1, goroutines = [Watchdog WdSleep ''b'']\<rparr>"
  let ?room = "\<lparr>datas = [''b'' \<mapsto> 0], alive = [''b'' \<mapsto> 7],
      chans = (\<lambda>_. \<lparr>buf = [zero_SignalingInfo], cap = 64, closed = False\<rparr>),
      next_chan = 1, goroutines = [Watchdog WdSleep ''b'']\<rparr>"
  have f: "mailbox_full ?full ''b''" by (simp add: mailbox_full_def)
  have n: "\<not> mailbox_full ?room ''b''" by (simp add: mailbox_full_def)
  have q: "queue ?room ''b'' = [zero_SignalingInfo]" by (simp add: queue_def Get_def)
  obtain dm' where s: "Set ''b'' ?e ?room = Inr dm'"
    by (simp add: Set_def Let_def select_send_def try_send_def)
  from Set_resets_or_drops [of ?full "''b''" ?e] f
  have a: "Set ''b'' ?e ?full = Inr ?full" by blast
  from Set_resets_or_drops [of ?room "''b''" ?e] s n
  have "queue dm' ''b'' = queue ?room ''b'' @ [?e] \<and> alive dm' ''b'' = Some LIFE_TIME_IN_SECOND"
    by blast
  with q s have b: "\<exists>dm'. Set ''b'' ?e ?room = Inr dm'
      \<and> queue dm' ''b'' = [zero_SignalingInfo, ?e]
      \<and> alive dm' ''b'' = Some LIFE_TIME_IN_SECOND" by simp
  from f a n b show ?thesis by blast
qed

subsection \<open>Eviction of an idle peer\<close>





lemma select_recv_frame:
  assumes "select_recv q dm = Some (v, dm')"
  shows "alive dm' = alive dm \<and> datas dm' = datas dm \<and> goroutines dm' = goroutines dm
         \<and> next_chan dm' = next_chan dm
         \<and> (\<forall>r. closed (chans dm' r) = closed (chans dm r))"
  using assms
  by (auto simp: select_recv_def try_recv_def Get_def split: option.splits list.splits if_splits)













subsection \<open>Watchdogs and counters\<close>

text \<open>
  Run alone, the goroutine of a push does what \<^verbatim>\<open>Set\<close> does: six steps are enough for
  the longest path through it.
\<close>

lemma GoPush_alone_is_Set:
  "case Set pid info dm of
     Inl p \<Rightarrow> run (GoPush pid info # replicate 6 (Step (length (goroutines dm)))) dm = Inl p
   | Inr dm' \<Rightarrow>
       (\<exists>dm''. run (GoPush pid info # replicate 6 (Step (length (goroutines dm)))) dm = Inr dm''
          \<and> datas dm'' = datas dm' \<and> alive dm'' = alive dm' \<and> chans dm'' = chans dm'
          \<and> next_chan dm'' = next_chan dm'
          \<and> goroutines dm'' =
              goroutines dm @ [Finished] @ drop (length (goroutines dm)) (goroutines dm'))"
proof (cases "datas dm pid")
  case None
  then show ?thesis
    by (simp add: Set_def Let_def select_send_def try_send_def make_chan_def
        resetAlive_def go_watchdog_def MAX_BUFFER_NUMBER_def
        step_def step_goroutine_def eval_nat_numeral nth_append list_update_append)
next
  case (Some r)
  show ?thesis
  proof (cases "closed (chans dm r)")
    case True
    with Some show ?thesis
      by (simp add: Set_def Let_def select_send_def try_send_def
          step_def step_goroutine_def eval_nat_numeral nth_append list_update_append)
  next
    case False
    with Some show ?thesis
      by (cases "length (buf (chans dm r)) < cap (chans dm r)")
         (simp_all add: Set_def Let_def select_send_def try_send_def resetAlive_def
          step_def step_goroutine_def eval_nat_numeral nth_append list_update_append)
  qed
qed

text \<open>
  When every \<^verbatim>\<open>Set\<close> runs alone, each peer with a mailbox has exactly one watchdog and a
  counter between 0 and 15, and a peer without a mailbox has neither, whatever the
  watchdogs' steps and the pulls in between.
\<close>

lemma one_watchdog_NewDManager: "one_watchdog NewDManager"
  by (simp add: one_watchdog_def wd_unique_def wd_counter_def wd_exists_def alive_in_datas_def
      no_SetCall_def NewDManager_def)

lemma Set_absent_fields:
  assumes "datas dm q = None" "Set q info dm = Inr dm'"
  shows "datas dm' = (datas dm)(q \<mapsto> next_chan dm)"
    "alive dm' = (alive dm)(q \<mapsto> LIFE_TIME_IN_SECOND)"
    "goroutines dm' = goroutines dm @ [Watchdog WdCond q]"
  using assms
  by (auto simp: Set_def Let_def select_send_def try_send_def make_chan_def resetAlive_def
        go_watchdog_def MAX_BUFFER_NUMBER_def)

lemma Set_present_fields:
  assumes "datas dm q = Some r" "Set q info dm = Inr dm'"
  shows "datas dm' = datas dm" "goroutines dm' = goroutines dm"
    "alive dm' = alive dm \<or> alive dm' = (alive dm)(q \<mapsto> LIFE_TIME_IN_SECOND)"
  using assms
  by (auto simp: Set_def Let_def select_send_def try_send_def resetAlive_def split: if_splits)

lemma one_watchdog_Set_absent:
  assumes inv: "one_watchdog dm" and n: "datas dm q = None" and s: "Set q info dm = Inr dm'"
  shows "one_watchdog dm'"
proof -
  note f = Set_absent_fields[OF n s]
  have nw: "\<And>i pc. i < length (goroutines dm) \<Longrightarrow> goroutines dm ! i \<noteq> Watchdog pc q"
  proof
    fix i pc assume "i < length (goroutines dm)" "goroutines dm ! i = Watchdog pc q"
    with inv have "\<exists>r. datas dm q = Some r" unfolding one_watchdog_def wd_counter_def by blast
    with n show False by simp
  qed
  have a: "wd_unique dm'"
    unfolding wd_unique_def f
  proof (intro allI impI, elim conjE)
    fix i j pc pc' p
    assume i: "i < length (goroutines dm @ [Watchdog WdCond q])"
      and j: "j < length (goroutines dm @ [Watchdog WdCond q])"
      and gi: "(goroutines dm @ [Watchdog WdCond q]) ! i = Watchdog pc p"
      and gj: "(goroutines dm @ [Watchdog WdCond q]) ! j = Watchdog pc' p"
    show "i = j"
    proof (cases "i < length (goroutines dm)")
      case True
      with gi have gi': "goroutines dm ! i = Watchdog pc p" by (simp add: nth_append)
      show ?thesis
      proof (cases "j < length (goroutines dm)")
        case True
        with gj have "goroutines dm ! j = Watchdog pc' p" by (simp add: nth_append)
        with inv gi' True \<open>i < length (goroutines dm)\<close> show ?thesis
          unfolding one_watchdog_def wd_unique_def by blast
      next
        case False
        with j have "j = length (goroutines dm)" by simp
        with gj have "p = q" by simp
        with gi' nw[OF True, of pc] show ?thesis by simp
      qed
    next
      case False
      with i have il: "i = length (goroutines dm)" by simp
      with gi have pq: "p = q" by simp
      show ?thesis
      proof (cases "j < length (goroutines dm)")
        case True
        with gj have "goroutines dm ! j = Watchdog pc' p" by (simp add: nth_append)
        with pq nw[OF True, of pc'] show ?thesis by simp
      next
        case False
        with j il show ?thesis by simp
      qed
    qed
  qed
  have b: "wd_counter dm'"
    unfolding wd_counter_def f
  proof (intro allI impI, elim conjE)
    fix i pc p
    assume i: "i < length (goroutines dm @ [Watchdog WdCond q])"
      and gi: "(goroutines dm @ [Watchdog WdCond q]) ! i = Watchdog pc p"
    show "\<exists>r c. ((datas dm)(q \<mapsto> next_chan dm)) p = Some r
            \<and> ((alive dm)(q \<mapsto> LIFE_TIME_IN_SECOND)) p = Some c \<and> 0 \<le> c
            \<and> c \<le> LIFE_TIME_IN_SECOND \<and> (pc = WdSleep \<longrightarrow> 0 < c)"
    proof (cases "i < length (goroutines dm)")
      case True
      with gi have gi': "goroutines dm ! i = Watchdog pc p" by (simp add: nth_append)
      with nw[OF True] have "p \<noteq> q" by auto
      moreover from inv True gi' have
        "\<exists>r c. datas dm p = Some r \<and> alive dm p = Some c \<and> 0 \<le> c
            \<and> c \<le> LIFE_TIME_IN_SECOND \<and> (pc = WdSleep \<longrightarrow> 0 < c)"
        unfolding one_watchdog_def wd_counter_def by blast
      ultimately show ?thesis by simp
    next
      case False
      with i have "i = length (goroutines dm)" by simp
      with gi show ?thesis by (simp add: LIFE_TIME_IN_SECOND_def)
    qed
  qed
  have c: "wd_exists dm'"
    unfolding wd_exists_def f
  proof (intro allI impI)
    fix p r assume d: "((datas dm)(q \<mapsto> next_chan dm)) p = Some r"
    show "\<exists>i pc. i < length (goroutines dm @ [Watchdog WdCond q])
            \<and> (goroutines dm @ [Watchdog WdCond q]) ! i = Watchdog pc p"
    proof (cases "p = q")
      case True
      then have "length (goroutines dm) < length (goroutines dm @ [Watchdog WdCond q])
            \<and> (goroutines dm @ [Watchdog WdCond q]) ! length (goroutines dm) = Watchdog WdCond p"
        by simp
      then show ?thesis by blast
    next
      case False
      with d have "datas dm p = Some r" by simp
      with inv obtain i pc where "i < length (goroutines dm)" "goroutines dm ! i = Watchdog pc p"
        unfolding one_watchdog_def wd_exists_def by blast
      then have "i < length (goroutines dm @ [Watchdog WdCond q])
            \<and> (goroutines dm @ [Watchdog WdCond q]) ! i = Watchdog pc p"
        by (simp add: nth_append)
      then show ?thesis by blast
    qed
  qed
  have d: "alive_in_datas dm'"
    using inv unfolding one_watchdog_def alive_in_datas_def f by auto
  have e: "no_SetCall dm'"
    using inv unfolding one_watchdog_def no_SetCall_def f by (auto simp: nth_append)
  from a b c d e show ?thesis by (simp add: one_watchdog_def)
qed

lemma one_watchdog_alive_reset:
  assumes inv: "one_watchdog dm" and n: "datas dm q = Some r"
    and f: "datas dm' = datas dm" "goroutines dm' = goroutines dm"
      "alive dm' = (alive dm)(q \<mapsto> LIFE_TIME_IN_SECOND)"
  shows "one_watchdog dm'"
proof -
  have a: "wd_unique dm'" using inv unfolding one_watchdog_def wd_unique_def f by blast
  have b: "wd_counter dm'"
    unfolding wd_counter_def f
  proof (intro allI impI, elim conjE)
    fix i pc p
    assume i: "i < length (goroutines dm)" and gi: "goroutines dm ! i = Watchdog pc p"
    with inv have
      o: "\<exists>r c. datas dm p = Some r \<and> alive dm p = Some c \<and> 0 \<le> c
            \<and> c \<le> LIFE_TIME_IN_SECOND \<and> (pc = WdSleep \<longrightarrow> 0 < c)"
      unfolding one_watchdog_def wd_counter_def by blast
    show "\<exists>r c. datas dm p = Some r
            \<and> ((alive dm)(q \<mapsto> LIFE_TIME_IN_SECOND)) p = Some c \<and> 0 \<le> c
            \<and> c \<le> LIFE_TIME_IN_SECOND \<and> (pc = WdSleep \<longrightarrow> 0 < c)"
    proof (cases "p = q")
      case True
      with n show ?thesis by (simp add: LIFE_TIME_IN_SECOND_def)
    next
      case False
      with o show ?thesis by simp
    qed
  qed
  have c: "wd_exists dm'" using inv unfolding one_watchdog_def wd_exists_def f by blast
  have d: "alive_in_datas dm'"
    using inv n unfolding one_watchdog_def alive_in_datas_def f by auto
  have e: "no_SetCall dm'" using inv unfolding one_watchdog_def no_SetCall_def f by blast
  from a b c d e show ?thesis by (simp add: one_watchdog_def)
qed

lemma one_watchdog_same_fields:
  assumes "one_watchdog dm" "datas dm' = datas dm" "goroutines dm' = goroutines dm"
    "alive dm' = alive dm"
  shows "one_watchdog dm'"
  using assms
  by (simp add: one_watchdog_def wd_unique_def wd_counter_def wd_exists_def alive_in_datas_def
      no_SetCall_def)

lemma one_watchdog_Set:
  assumes "one_watchdog dm" "Set q info dm = Inr dm'"
  shows "one_watchdog dm'"
proof (cases "datas dm q")
  case None
  from one_watchdog_Set_absent[OF assms(1) None assms(2)] show ?thesis .
next
  case (Some r)
  note f = Set_present_fields[OF Some assms(2)]
  from f(3) show ?thesis
  proof
    assume "alive dm' = alive dm"
    with assms(1) f(1,2) show ?thesis by (rule one_watchdog_same_fields)
  next
    assume "alive dm' = (alive dm)(q \<mapsto> LIFE_TIME_IN_SECOND)"
    with assms(1) Some f(1,2) show ?thesis by (rule one_watchdog_alive_reset)
  qed
qed


lemma one_watchdog_wd_step:
  assumes inv: "one_watchdog dm" and i: "i < length (goroutines dm)"
    and g: "goroutines dm ! i = Watchdog pc p"
    and f: "datas dm' = datas dm" "goroutines dm' = (goroutines dm)[i := Watchdog pc' p]"
    and a: "alive dm' p = Some c'" "\<And>q. q \<noteq> p \<Longrightarrow> alive dm' q = alive dm q"
    and c: "0 \<le> c'" "c' \<le> LIFE_TIME_IN_SECOND" "pc' = WdSleep \<longrightarrow> 0 < c'"
  shows "one_watchdog dm'"
proof -
  from inv have U: "\<And>j k pa pb q. j < length (goroutines dm) \<Longrightarrow> k < length (goroutines dm) \<Longrightarrow>
      goroutines dm ! j = Watchdog pa q \<Longrightarrow> goroutines dm ! k = Watchdog pb q \<Longrightarrow> j = k"
    unfolding one_watchdog_def wd_unique_def by blast
  from inv have C: "\<And>j pa q. j < length (goroutines dm) \<Longrightarrow> goroutines dm ! j = Watchdog pa q \<Longrightarrow>
      \<exists>r c. datas dm q = Some r \<and> alive dm q = Some c \<and> 0 \<le> c
            \<and> c \<le> LIFE_TIME_IN_SECOND \<and> (pa = WdSleep \<longrightarrow> 0 < c)"
    unfolding one_watchdog_def wd_counter_def by blast
  from inv have E: "\<And>q r. datas dm q = Some r \<Longrightarrow>
      \<exists>j pa. j < length (goroutines dm) \<and> goroutines dm ! j = Watchdog pa q"
    unfolding one_watchdog_def wd_exists_def by blast
  from inv have A: "\<And>q c. alive dm q = Some c \<Longrightarrow> datas dm q \<noteq> None"
    unfolding one_watchdog_def alive_in_datas_def by blast
  from inv have N: "\<And>j pa q info. j < length (goroutines dm) \<Longrightarrow> goroutines dm ! j \<noteq> SetCall pa q info"
    unfolding one_watchdog_def no_SetCall_def by blast
  have u: "wd_unique dm'"
    unfolding wd_unique_def f
  proof (intro allI impI, elim conjE)
    fix j k pa pb q
    assume j: "j < length ((goroutines dm)[i := Watchdog pc' p])"
      and k: "k < length ((goroutines dm)[i := Watchdog pc' p])"
      and gj: "(goroutines dm)[i := Watchdog pc' p] ! j = Watchdog pa q"
      and gk: "(goroutines dm)[i := Watchdog pc' p] ! k = Watchdog pb q"
    have j': "\<exists>pa'. goroutines dm ! j = Watchdog pa' q"
      using j gj g by (cases "j = i") (auto simp: nth_list_update)
    have k': "\<exists>pb'. goroutines dm ! k = Watchdog pb' q"
      using k gk g by (cases "k = i") (auto simp: nth_list_update)
    from j' k' j k U show "j = k" by auto
  qed
  have w: "wd_counter dm'"
    unfolding wd_counter_def f
  proof (intro allI impI, elim conjE)
    fix j pa q
    assume j: "j < length ((goroutines dm)[i := Watchdog pc' p])"
      and gj: "(goroutines dm)[i := Watchdog pc' p] ! j = Watchdog pa q"
    show "\<exists>r c. datas dm q = Some r \<and> alive dm' q = Some c \<and> 0 \<le> c
            \<and> c \<le> LIFE_TIME_IN_SECOND \<and> (pa = WdSleep \<longrightarrow> 0 < c)"
    proof (cases "j = i")
      case True
      with j gj have "q = p" "pa = pc'" by simp_all
      moreover from C[OF i g] obtain r where "datas dm p = Some r" by blast
      ultimately show ?thesis using a(1) c by simp
    next
      case False
      with j gj have gj': "goroutines dm ! j = Watchdog pa q" and jl: "j < length (goroutines dm)"
        by simp_all
      have "q \<noteq> p" using U[OF jl i gj'] g False by auto
      with C[OF jl gj'] a(2) show ?thesis by simp
    qed
  qed
  have e: "wd_exists dm'"
    unfolding wd_exists_def f
  proof (intro allI impI)
    fix q r assume "datas dm q = Some r"
    from E[OF this] obtain j pa where j: "j < length (goroutines dm)" "goroutines dm ! j = Watchdog pa q"
      by blast
    show "\<exists>j pa. j < length ((goroutines dm)[i := Watchdog pc' p])
            \<and> (goroutines dm)[i := Watchdog pc' p] ! j = Watchdog pa q"
    proof (cases "j = i")
      case True
      with j g have "q = p" by simp
      with True i have "i < length ((goroutines dm)[i := Watchdog pc' p])
            \<and> (goroutines dm)[i := Watchdog pc' p] ! i = Watchdog pc' q" by simp
      then show ?thesis by blast
    next
      case False
      with j have "j < length ((goroutines dm)[i := Watchdog pc' p])
            \<and> (goroutines dm)[i := Watchdog pc' p] ! j = Watchdog pa q" by simp
      then show ?thesis by blast
    qed
  qed
  have d: "alive_in_datas dm'"
    unfolding alive_in_datas_def f
  proof (intro allI impI)
    fix q c0 assume al: "alive dm' q = Some c0"
    show "datas dm q \<noteq> None"
    proof (cases "q = p")
      case True
      from C[OF i g] True show ?thesis by auto
    next
      case False
      with al a(2) have "alive dm q = Some c0" by simp
      from A[OF this] show ?thesis .
    qed
  qed
  have n: "no_SetCall dm'"
    unfolding no_SetCall_def f
  proof (intro allI impI)
    fix j pa q info assume j: "j < length ((goroutines dm)[i := Watchdog pc' p])"
    show "(goroutines dm)[i := Watchdog pc' p] ! j \<noteq> SetCall pa q info"
      using N[of j pa q info] j by (cases "j = i") simp_all
  qed
  from u w e d n show ?thesis by (simp add: one_watchdog_def)
qed

lemma one_watchdog_Clean_step:
  assumes inv: "one_watchdog dm" and i: "i < length (goroutines dm)"
    and g: "goroutines dm ! i = Watchdog pc p"
    and f: "datas dm' = (datas dm)(p := None)" "alive dm' = (alive dm)(p := None)"
      "goroutines dm' = (goroutines dm)[i := Finished]"
  shows "one_watchdog dm'"
proof -
  from inv have U: "\<And>j k pa pb q. j < length (goroutines dm) \<Longrightarrow> k < length (goroutines dm) \<Longrightarrow>
      goroutines dm ! j = Watchdog pa q \<Longrightarrow> goroutines dm ! k = Watchdog pb q \<Longrightarrow> j = k"
    unfolding one_watchdog_def wd_unique_def by blast
  from inv have C: "\<And>j pa q. j < length (goroutines dm) \<Longrightarrow> goroutines dm ! j = Watchdog pa q \<Longrightarrow>
      \<exists>r c. datas dm q = Some r \<and> alive dm q = Some c \<and> 0 \<le> c
            \<and> c \<le> LIFE_TIME_IN_SECOND \<and> (pa = WdSleep \<longrightarrow> 0 < c)"
    unfolding one_watchdog_def wd_counter_def by blast
  from inv have E: "\<And>q r. datas dm q = Some r \<Longrightarrow>
      \<exists>j pa. j < length (goroutines dm) \<and> goroutines dm ! j = Watchdog pa q"
    unfolding one_watchdog_def wd_exists_def by blast
  from inv have A: "\<And>q c. alive dm q = Some c \<Longrightarrow> datas dm q \<noteq> None"
    unfolding one_watchdog_def alive_in_datas_def by blast
  from inv have N: "\<And>j pa q info. j < length (goroutines dm) \<Longrightarrow> goroutines dm ! j \<noteq> SetCall pa q info"
    unfolding one_watchdog_def no_SetCall_def by blast
  have old: "\<And>j pa q. j < length ((goroutines dm)[i := Finished]) \<Longrightarrow>
      (goroutines dm)[i := Finished] ! j = Watchdog pa q \<Longrightarrow>
      j \<noteq> i \<and> j < length (goroutines dm) \<and> goroutines dm ! j = Watchdog pa q \<and> q \<noteq> p"
  proof -
    fix j pa q
    assume j: "j < length ((goroutines dm)[i := Finished])"
      and gj: "(goroutines dm)[i := Finished] ! j = Watchdog pa q"
    have ji: "j \<noteq> i" using j gj by (auto simp: nth_list_update)
    with j gj have gj': "goroutines dm ! j = Watchdog pa q" and jl: "j < length (goroutines dm)"
      by simp_all
    have "q \<noteq> p" using U[OF jl i gj'] g ji by auto
    with ji jl gj' show "j \<noteq> i \<and> j < length (goroutines dm) \<and> goroutines dm ! j = Watchdog pa q \<and> q \<noteq> p"
      by simp
  qed
  have u: "wd_unique dm'"
    unfolding wd_unique_def f using old U by blast
  have w: "wd_counter dm'"
    unfolding wd_counter_def f
  proof (intro allI impI, elim conjE)
    fix j pa q
    assume j: "j < length ((goroutines dm)[i := Finished])"
      and gj: "(goroutines dm)[i := Finished] ! j = Watchdog pa q"
    from old[OF j gj] have o: "j < length (goroutines dm)" "goroutines dm ! j = Watchdog pa q" "q \<noteq> p"
      by simp_all
    from C[OF o(1,2)] o(3)
    show "\<exists>r c. ((datas dm)(p := None)) q = Some r \<and> ((alive dm)(p := None)) q = Some c \<and> 0 \<le> c
            \<and> c \<le> LIFE_TIME_IN_SECOND \<and> (pa = WdSleep \<longrightarrow> 0 < c)" by simp
  qed
  have e: "wd_exists dm'"
    unfolding wd_exists_def f
  proof (intro allI impI)
    fix q r assume d: "((datas dm)(p := None)) q = Some r"
    then have qp: "q \<noteq> p" and "datas dm q = Some r" by (auto split: if_splits)
    from E[OF this(2)] obtain j pa where j: "j < length (goroutines dm)" "goroutines dm ! j = Watchdog pa q"
      by blast
    have "j \<noteq> i" using j g qp by auto
    with j have "j < length ((goroutines dm)[i := Finished])
            \<and> (goroutines dm)[i := Finished] ! j = Watchdog pa q" by simp
    then show "\<exists>j pa. j < length ((goroutines dm)[i := Finished])
            \<and> (goroutines dm)[i := Finished] ! j = Watchdog pa q" by blast
  qed
  have d: "alive_in_datas dm'"
    unfolding alive_in_datas_def f using A by (auto split: if_splits)
  have n: "no_SetCall dm'"
    unfolding no_SetCall_def f
  proof (intro allI impI)
    fix j pa q info assume j: "j < length ((goroutines dm)[i := Finished])"
    show "(goroutines dm)[i := Finished] ! j \<noteq> SetCall pa q info"
      using N[of j pa q info] j by (cases "j = i") simp_all
  qed
  from u w e d n show ?thesis by (simp add: one_watchdog_def)
qed


lemma one_watchdog_step:
  assumes inv: "one_watchdog dm" and w: "well_formed dm" and s: "step i dm = Inr dm'"
  shows "one_watchdog dm'"
proof (cases "i < length (goroutines dm)")
  case False
  with s have "dm' = dm" by (simp add: step_def)
  with inv show ?thesis by simp
next
  case True
  from inv have N: "\<And>pa q info. goroutines dm ! i \<noteq> SetCall pa q info"
    using True unfolding one_watchdog_def no_SetCall_def by blast
  from inv have C: "\<And>pa q. goroutines dm ! i = Watchdog pa q \<Longrightarrow>
      \<exists>r c. datas dm q = Some r \<and> alive dm q = Some c \<and> 0 \<le> c
            \<and> c \<le> LIFE_TIME_IN_SECOND \<and> (pa = WdSleep \<longrightarrow> 0 < c)"
    using True unfolding one_watchdog_def wd_counter_def by blast
  show ?thesis
  proof (cases "goroutines dm ! i")
    case (SetCall pc p info)
    with N[of pc p info] show ?thesis by simp
  next
    case Finished
    with s True have "datas dm' = datas dm" "goroutines dm' = goroutines dm" "alive dm' = alive dm"
      by (auto simp: step_def step_goroutine_def list_update_same_conv)
    with inv show ?thesis by (rule one_watchdog_same_fields)
  next
    case (Watchdog pc p)
    from C[OF Watchdog] obtain r c where
      d: "datas dm p = Some r" and a: "alive dm p = Some c" and c0: "0 \<le> c"
      and c15: "c \<le> LIFE_TIME_IN_SECOND" and cs: "pc = WdSleep \<longrightarrow> 0 < c" by blast
    show ?thesis
    proof (cases pc)
      case WdCond
      with s True Watchdog a have
        f: "datas dm' = datas dm"
           "goroutines dm' = (goroutines dm)[i := Watchdog (if 0 < c then WdSleep else WdClean) p]"
           "alive dm' = alive dm"
        by (auto simp: step_def step_goroutine_def alive_get_def)
      show ?thesis
        by (rule one_watchdog_wd_step[OF inv True Watchdog f(1,2), of c])
           (use a c0 c15 f(3) in \<open>auto split: if_splits\<close>)
    next
      case WdSleep
      with s True Watchdog a have
        f: "datas dm' = datas dm"
           "goroutines dm' = (goroutines dm)[i := Watchdog WdCond p]"
           "alive dm' = (alive dm)(p \<mapsto> c - 1)"
        by (auto simp: step_def step_goroutine_def alive_get_def)
      show ?thesis
        by (rule one_watchdog_wd_step[OF inv True Watchdog f(1,2), of "c - 1"])
           (use c0 c15 cs WdSleep f(3) in auto)
    next
      case WdClean
      have "\<not> closed (chans dm r)" using w d by (auto simp: well_formed_def)
      with s True Watchdog WdClean d have
        f: "datas dm' = (datas dm)(p := None)" "alive dm' = (alive dm)(p := None)"
           "goroutines dm' = (goroutines dm)[i := Finished]"
        by (auto simp: step_def step_goroutine_def Clean_def)
      show ?thesis by (rule one_watchdog_Clean_step[OF inv True Watchdog f])
    qed
  qed
qed

lemma one_watchdog_exec:
  assumes "one_watchdog dm" "well_formed dm" "\<not> is_GoPush e" "exec e dm = Inr dm'"
  shows "one_watchdog dm'"
proof (cases e)
  case (Push q info)
  with assms show ?thesis by (auto intro: one_watchdog_Set)
next
  case (GoPush q info)
  with assms(3) show ?thesis by (simp add: is_GoPush_def)
next
  case (Pull q)
  show ?thesis
  proof (cases "select_recv q dm")
    case None
    with assms Pull show ?thesis by simp
  next
    case (Some a)
    then obtain v dm1 where a: "select_recv q dm = Some (v, dm1)" by (cases a) auto
    with assms(4) Pull have "dm' = dm1" by simp
    with select_recv_frame[OF a] assms(1) show ?thesis
      by (auto intro: one_watchdog_same_fields)
  qed
next
  case (Step i)
  with assms show ?thesis by (auto intro: one_watchdog_step)
qed

lemma one_watchdog_run:
  "one_watchdog dm \<Longrightarrow> well_formed dm \<Longrightarrow> serial es \<Longrightarrow> run es dm = Inr dm' \<Longrightarrow> one_watchdog dm'"
proof (induction es arbitrary: dm)
  case Nil
  then show ?case by simp
next
  case (Cons e es)
  from Cons.prems(4) obtain dm1 where e: "exec e dm = Inr dm1" and r: "run es dm1 = Inr dm'"
    by (auto split: sum.splits)
  from Cons.prems(3) have ne: "\<not> is_GoPush e" and se: "serial es" by (simp_all add: serial_def)
  have o1: "one_watchdog dm1" using Cons.prems(1,2) ne e by (rule one_watchdog_exec)
  have w1: "well_formed dm1" using Cons.prems(2) e by (rule well_formed_exec)
  from Cons.IH[OF o1 w1 se r] show ?case .
qed

lemma serial_runs_keep_one_watchdog:
  assumes "serial es" "run es NewDManager = Inr dm"
  shows "one_watchdog dm"
  using one_watchdog_NewDManager well_formed_NewDManager assms by (rule one_watchdog_run)

lemma filter_upt_single: "i < n \<Longrightarrow> filter (\<lambda>j. j = i) [0..<n] = [i]"
  by (induction n) (auto simp: less_Suc_eq)

lemma watchdogs_of_live:
  assumes "one_watchdog dm" "datas dm p = Some r"
  shows "\<exists>i pc. watchdogs_of dm p = [i] \<and> i < length (goroutines dm)
           \<and> goroutines dm ! i = Watchdog pc p"
proof -
  from assms obtain i pc where i: "i < length (goroutines dm)" "goroutines dm ! i = Watchdog pc p"
    unfolding one_watchdog_def wd_exists_def by blast
  have u: "\<And>j. j < length (goroutines dm) \<Longrightarrow>
      (case goroutines dm ! j of Watchdog pc q \<Rightarrow> q = p | _ \<Rightarrow> False) = (j = i)"
  proof -
    fix j assume j: "j < length (goroutines dm)"
    show "(case goroutines dm ! j of Watchdog pc q \<Rightarrow> q = p | _ \<Rightarrow> False) = (j = i)"
    proof (cases "goroutines dm ! j")
      case (Watchdog pa q)
      have "q = p \<Longrightarrow> j = i"
        using assms(1) i j Watchdog unfolding one_watchdog_def wd_unique_def by blast
      with Watchdog i show ?thesis by auto
    next
      case (SetCall pa q info)
      with i show ?thesis by auto
    next
      case Finished
      with i show ?thesis by auto
    qed
  qed
  have "watchdogs_of dm p = filter (\<lambda>j. j = i) [0..<length (goroutines dm)]"
    unfolding watchdogs_of_def by (rule filter_cong) (simp_all add: u)
  with i filter_upt_single[OF i(1)] show ?thesis by auto
qed

lemma watchdogs_of_dead:
  assumes "one_watchdog dm" "datas dm p = None"
  shows "watchdogs_of dm p = []"
proof -
  have "\<And>j. j < length (goroutines dm) \<Longrightarrow>
      \<not> (case goroutines dm ! j of Watchdog pc q \<Rightarrow> q = p | _ \<Rightarrow> False)"
  proof -
    fix j assume j: "j < length (goroutines dm)"
    show "\<not> (case goroutines dm ! j of Watchdog pc q \<Rightarrow> q = p | _ \<Rightarrow> False)"
    proof (cases "goroutines dm ! j")
      case (Watchdog pa q)
      with assms(1) j have "\<exists>r. datas dm q = Some r"
        unfolding one_watchdog_def wd_counter_def by blast
      with assms(2) Watchdog show ?thesis by auto
    qed simp_all
  qed
  then show ?thesis unfolding watchdogs_of_def by (simp add: filter_empty_conv)
qed

lemma serial_runs_one_watchdog_per_live_peer:
  assumes "serial es" "run es NewDManager = Inr dm"
  shows "(datas dm p = None \<longrightarrow> alive dm p = None \<and> watchdogs_of dm p = [])
       \<and> (datas dm p \<noteq> None \<longrightarrow>
            length (watchdogs_of dm p) = 1
            \<and> (\<exists>c. alive dm p = Some c \<and> 0 \<le> c \<and> c \<le> LIFE_TIME_IN_SECOND))"
proof -
  have o: "one_watchdog dm" using assms by (rule serial_runs_keep_one_watchdog)
  have a: "datas dm p = None \<longrightarrow> alive dm p = None \<and> watchdogs_of dm p = []"
  proof
    assume n: "datas dm p = None"
    have "alive dm p = None"
    proof (cases "alive dm p")
      case (Some c)
      with o n show ?thesis unfolding one_watchdog_def alive_in_datas_def by blast
    qed simp
    with watchdogs_of_dead[OF o n] show "alive dm p = None \<and> watchdogs_of dm p = []" by simp
  qed
  have b: "datas dm p \<noteq> None \<longrightarrow>
            length (watchdogs_of dm p) = 1
            \<and> (\<exists>c. alive dm p = Some c \<and> 0 \<le> c \<and> c \<le> LIFE_TIME_IN_SECOND)"
  proof
    assume "datas dm p \<noteq> None"
    then obtain r where r: "datas dm p = Some r" by auto
    from watchdogs_of_live[OF o r] obtain i pc where
      i: "watchdogs_of dm p = [i]" "i < length (goroutines dm)" "goroutines dm ! i = Watchdog pc p"
      by blast
    from o i(2,3) have "\<exists>c. alive dm p = Some c \<and> 0 \<le> c \<and> c \<le> LIFE_TIME_IN_SECOND"
      unfolding one_watchdog_def wd_counter_def by blast
    with i(1) show "length (watchdogs_of dm p) = 1
            \<and> (\<exists>c. alive dm p = Some c \<and> 0 \<le> c \<and> c \<le> LIFE_TIME_IN_SECOND)" by simp
  qed
  from a b show ?thesis by simp
qed


lemmas dm_eval = NewDManager_def Set_def Let_def select_send_def try_send_def make_chan_def
        resetAlive_def go_watchdog_def MAX_BUFFER_NUMBER_def LIFE_TIME_IN_SECOND_def
        step_def step_goroutine_def alive_get_def Clean_def queue_def Get_def

lemma run_two_pushes: "run two_pushes NewDManager =
   Inr \<lparr>datas = [''x'' \<mapsto> 1], alive = [''x'' \<mapsto> 15],
        chans = (\<lambda>_. \<lparr>buf = [], cap = 0, closed = False\<rparr>)
                  (0 := \<lparr>buf = [offer], cap = 64, closed = False\<rparr>,
                   1 := \<lparr>buf = [candidate], cap = 64, closed = False\<rparr>),
        next_chan = 2,
        goroutines = [Finished, Finished, Watchdog WdCond ''x'', Watchdog WdCond ''x'']\<rparr>"
  by (simp add: two_pushes_def dm_eval)

lemma run_both_count_down: "run both_count_down
     \<lparr>datas = [''x'' \<mapsto> 1], alive = [''x'' \<mapsto> 15],
        chans = (\<lambda>_. \<lparr>buf = [], cap = 0, closed = False\<rparr>)
                  (0 := \<lparr>buf = [offer], cap = 64, closed = False\<rparr>,
                   1 := \<lparr>buf = [candidate], cap = 64, closed = False\<rparr>),
        next_chan = 2,
        goroutines = [Finished, Finished, Watchdog WdCond ''x'', Watchdog WdCond ''x'']\<rparr> =
   Inr \<lparr>datas = [''x'' \<mapsto> 1], alive = [''x'' \<mapsto> - 1],
        chans = (\<lambda>_. \<lparr>buf = [], cap = 0, closed = False\<rparr>)
                  (0 := \<lparr>buf = [offer], cap = 64, closed = False\<rparr>,
                   1 := \<lparr>buf = [candidate], cap = 64, closed = False\<rparr>),
        next_chan = 2,
        goroutines = [Finished, Finished, Watchdog WdCond ''x'', Watchdog WdCond ''x'']\<rparr>"
  by (simp add: both_count_down_def dm_eval eval_nat_numeral)



text \<open>
  C6 on the source: line 73 tests \<^verbatim>\<open>dm.datas[id] == nil\<close> before the mutex is taken, so
  two pushes for a new peer can both pass the test. Both create a channel (the second
  replaces the first, and the envelope queued in the first is lost) and both start a
  watchdog. When both calls have returned, the live peer \<open>x\<close> has the two watchdogs 2 and
  3; and once both have read the counter at 1, their decrements leave it at -1 while the
  peer is still in both maps.
\<close>

theorem concurrent_pushes_start_two_watchdogs:
  "\<exists>dm dm'. run two_pushes NewDManager = Inr dm
      \<and> goroutines dm = [Finished, Finished, Watchdog WdCond ''x'', Watchdog WdCond ''x'']
      \<and> datas dm ''x'' = Some 1 \<and> alive dm ''x'' = Some 15
      \<and> watchdogs_of dm ''x'' = [2, 3]
      \<and> queue dm ''x'' = [candidate]
      \<and> run both_count_down dm = Inr dm'
      \<and> datas dm' ''x'' = Some 1 \<and> alive dm' ''x'' = Some (- 1)"
proof -
  let ?dm = "\<lparr>datas = [''x'' \<mapsto> 1], alive = [''x'' \<mapsto> 15],
        chans = (\<lambda>_. \<lparr>buf = [], cap = 0, closed = False\<rparr>)
                  (0 := \<lparr>buf = [offer], cap = 64, closed = False\<rparr>,
                   1 := \<lparr>buf = [candidate], cap = 64, closed = False\<rparr>),
        next_chan = 2,
        goroutines = [Finished, Finished, Watchdog WdCond ''x'', Watchdog WdCond ''x'']\<rparr>"
  let ?dm' = "?dm\<lparr>alive := [''x'' \<mapsto> - 1]\<rparr>"
  have a: "run two_pushes NewDManager = Inr ?dm" by (rule run_two_pushes)
  have b: "run both_count_down ?dm = Inr ?dm'" using run_both_count_down by simp
  have c: "watchdogs_of ?dm ''x'' = [2, 3]"
    by (simp add: watchdogs_of_def upt_rec)
  have d: "queue ?dm ''x'' = [candidate]" by (simp add: queue_def Get_def)
  show ?thesis
    apply (rule exI[of _ ?dm])
    apply (rule exI[of _ ?dm'])
    apply (simp only: a b c d)
    apply simp
    done
qed

section \<open>Properties of the HTTP handlers\<close>

text \<open>
  C4: in every reachable state the pull handler returns, whatever the mailbox. With no
  mailbox for \<^verbatim>\<open>self_id\<close> (\<^verbatim>\<open>Get\<close> gives the nil channel) or an empty one it leaves the
  state as it is and answers 200 with no header and an empty body. Otherwise it takes
  exactly the oldest envelope off that peer's queue, touches nothing else, sets
  \<^verbatim>\<open>Content-Type: application/binary\<close> and the body is what the encoder wrote for that
  envelope (nothing when the encoder returned an error, which the handler logs).
\<close>

theorem pull_dequeues_one_or_answers_empty:
  assumes "run es NewDManager = Inr dm"
  shows "(Get dm (mux_var r ''self_id'') = None \<longrightarrow> pull enc dm r = (dm, empty_response))
     \<and> (queue dm (mux_var r ''self_id'') = [] \<longrightarrow> pull enc dm r = (dm, empty_response))
     \<and> (\<forall>v rest. queue dm (mux_var r ''self_id'') = v # rest \<longrightarrow>
           (\<exists>dm'. pull enc dm r =
                    (dm', \<lparr>status = StatusOK,
                           header = [(''Content-Type'', ''application/binary'')],
                           body = (case enc v of Inl e \<Rightarrow> [] | Inr bs \<Rightarrow> bs)\<rparr>)
                  \<and> queue dm' (mux_var r ''self_id'') = rest
                  \<and> (\<forall>q. q \<noteq> mux_var r ''self_id'' \<longrightarrow> queue dm' q = queue dm q)
                  \<and> datas dm' = datas dm \<and> alive dm' = alive dm
                  \<and> goroutines dm' = goroutines dm))"
proof -
  have w: "well_formed dm" using well_formed_NewDManager assms by (rule well_formed_run)
  have a: "Get dm (mux_var r ''self_id'') = None \<longrightarrow> pull enc dm r = (dm, empty_response)"
    by (simp add: pull_def select_recv_def)
  have b: "queue dm (mux_var r ''self_id'') = [] \<longrightarrow> pull enc dm r = (dm, empty_response)"
    using select_recv_empty[OF w] by (simp add: pull_def)
  have c: "\<forall>v rest. queue dm (mux_var r ''self_id'') = v # rest \<longrightarrow>
           (\<exists>dm'. pull enc dm r =
                    (dm', \<lparr>status = StatusOK,
                           header = [(''Content-Type'', ''application/binary'')],
                           body = (case enc v of Inl e \<Rightarrow> [] | Inr bs \<Rightarrow> bs)\<rparr>)
                  \<and> queue dm' (mux_var r ''self_id'') = rest
                  \<and> (\<forall>q. q \<noteq> mux_var r ''self_id'' \<longrightarrow> queue dm' q = queue dm q)
                  \<and> datas dm' = datas dm \<and> alive dm' = alive dm
                  \<and> goroutines dm' = goroutines dm)"
  proof (intro allI impI)
    fix v rest assume q: "queue dm (mux_var r ''self_id'') = v # rest"
    from select_recv_Cons[OF w q] obtain dm' where
      "select_recv (mux_var r ''self_id'') dm = Some (v, dm')"
      "queue dm' (mux_var r ''self_id'') = rest"
      "\<forall>q. q \<noteq> mux_var r ''self_id'' \<longrightarrow> queue dm' q = queue dm q"
      "datas dm' = datas dm" "alive dm' = alive dm" "goroutines dm' = goroutines dm"
      by blast
    then show "\<exists>dm'. pull enc dm r =
                    (dm', \<lparr>status = StatusOK,
                           header = [(''Content-Type'', ''application/binary'')],
                           body = (case enc v of Inl e \<Rightarrow> [] | Inr bs \<Rightarrow> bs)\<rparr>)
                  \<and> queue dm' (mux_var r ''self_id'') = rest
                  \<and> (\<forall>q. q \<noteq> mux_var r ''self_id'' \<longrightarrow> queue dm' q = queue dm q)
                  \<and> datas dm' = datas dm \<and> alive dm' = alive dm
                  \<and> goroutines dm' = goroutines dm"
      by (simp add: pull_def)
  qed
  from a b c show ?thesis by blast
qed


theorem pull_dequeues_one_or_answers_empty_witness:
  "run [Push ''b'' (zero_SignalingInfo\<lparr>Flag := 3\<rparr>)] NewDManager
     = Inr \<lparr>datas = [''b'' \<mapsto> 0], alive = [''b'' \<mapsto> 15],
            chans = (\<lambda>_. \<lparr>buf = [], cap = 0, closed = False\<rparr>)
                      (0 := \<lparr>buf = [zero_SignalingInfo\<lparr>Flag := 3\<rparr>], cap = 64, closed = False\<rparr>),
            next_chan = 1, goroutines = [Watchdog WdCond ''b'']\<rparr>
   \<and> pull (\<lambda>v. Inr [1, 2, 3])
        \<lparr>datas = [''b'' \<mapsto> 0], alive = [''b'' \<mapsto> 15],
            chans = (\<lambda>_. \<lparr>buf = [], cap = 0, closed = False\<rparr>)
                      (0 := \<lparr>buf = [zero_SignalingInfo\<lparr>Flag := 3\<rparr>], cap = 64, closed = False\<rparr>),
            next_chan = 1, goroutines = [Watchdog WdCond ''b'']\<rparr>
        \<lparr>vars = [''self_id'' \<mapsto> ''a''], req_body = []\<rparr>
      = (\<lparr>datas = [''b'' \<mapsto> 0], alive = [''b'' \<mapsto> 15],
            chans = (\<lambda>_. \<lparr>buf = [], cap = 0, closed = False\<rparr>)
                      (0 := \<lparr>buf = [zero_SignalingInfo\<lparr>Flag := 3\<rparr>], cap = 64, closed = False\<rparr>),
            next_chan = 1, goroutines = [Watchdog WdCond ''b'']\<rparr>, empty_response)
   \<and> (\<exists>dm'. pull (\<lambda>v. Inr [1, 2, 3])
        \<lparr>datas = [''b'' \<mapsto> 0], alive = [''b'' \<mapsto> 15],
            chans = (\<lambda>_. \<lparr>buf = [], cap = 0, closed = False\<rparr>)
                      (0 := \<lparr>buf = [zero_SignalingInfo\<lparr>Flag := 3\<rparr>], cap = 64, closed = False\<rparr>),
            next_chan = 1, goroutines = [Watchdog WdCond ''b'']\<rparr>
        \<lparr>vars = [''self_id'' \<mapsto> ''b''], req_body = []\<rparr>
      = (dm', \<lparr>status = StatusOK, header = [(''Content-Type'', ''application/binary'')],
                body = [1, 2, 3]\<rparr>)
      \<and> queue dm' ''b'' = [])"
proof -
  let ?e = "zero_SignalingInfo\<lparr>Flag := 3\<rparr>"
  let ?dm = "\<lparr>datas = [''b'' \<mapsto> 0], alive = [''b'' \<mapsto> 15],
            chans = (\<lambda>_. \<lparr>buf = [], cap = 0, closed = False\<rparr>)
                      (0 := \<lparr>buf = [?e], cap = 64, closed = False\<rparr>),
            next_chan = 1, goroutines = [Watchdog WdCond ''b'']\<rparr>"
  have r: "run [Push ''b'' ?e] NewDManager = Inr ?dm"
    by (simp add: NewDManager_def Set_def Let_def select_send_def try_send_def make_chan_def
        resetAlive_def go_watchdog_def MAX_BUFFER_NUMBER_def LIFE_TIME_IN_SECOND_def)
  have qa: "queue ?dm (mux_var \<lparr>vars = [''self_id'' \<mapsto> ''a''], req_body = []\<rparr> ''self_id'') = []"
    by (simp add: queue_def Get_def mux_var_def)
  have qb: "queue ?dm (mux_var \<lparr>vars = [''self_id'' \<mapsto> ''b''], req_body = []\<rparr> ''self_id'') = [?e]"
    by (simp add: queue_def Get_def mux_var_def)
  have mb: "mux_var \<lparr>vars = [''self_id'' \<mapsto> ''b''], req_body = []\<rparr> ''self_id'' = ''b''"
    by (simp add: mux_var_def)
  from pull_dequeues_one_or_answers_empty
    [OF r, of "\<lparr>vars = [''self_id'' \<mapsto> ''a''], req_body = []\<rparr>" "\<lambda>v. Inr [1, 2, 3]"] qa
  have a: "pull (\<lambda>v. Inr [1, 2, 3]) ?dm \<lparr>vars = [''self_id'' \<mapsto> ''a''], req_body = []\<rparr>
      = (?dm, empty_response)" by blast
  from pull_dequeues_one_or_answers_empty
    [OF r, of "\<lparr>vars = [''self_id'' \<mapsto> ''b''], req_body = []\<rparr>" "\<lambda>v. Inr [1, 2, 3]"] qb
  have "\<exists>dm'. pull (\<lambda>v. Inr [1, 2, 3]) ?dm \<lparr>vars = [''self_id'' \<mapsto> ''b''], req_body = []\<rparr>
      = (dm', \<lparr>status = StatusOK, header = [(''Content-Type'', ''application/binary'')],
                body = (case (Inr [1, 2, 3] :: error + byte list) of Inl e \<Rightarrow> [] | Inr bs \<Rightarrow> bs)\<rparr>)
      \<and> queue dm' (mux_var \<lparr>vars = [''self_id'' \<mapsto> ''b''], req_body = []\<rparr> ''self_id'') = []"
    by blast
  then have b: "\<exists>dm'. pull (\<lambda>v. Inr [1, 2, 3]) ?dm \<lparr>vars = [''self_id'' \<mapsto> ''b''], req_body = []\<rparr>
      = (dm', \<lparr>status = StatusOK, header = [(''Content-Type'', ''application/binary'')],
                body = [1, 2, 3]\<rparr>)
      \<and> queue dm' ''b'' = []"
    by (simp add: mb)
  from r a b show ?thesis by blast
qed

text \<open>
  C5: when the body of a push does not decode, the handler answers 400 and returns the
  data manager it was given. When it decodes to \<open>info\<close>, the handler calls \<^verbatim>\<open>Set\<close> for
  \<^verbatim>\<open>target_id\<close>, which in a reachable state returns: the envelope is appended to that
  peer's queue unless the queue already holds 64, and no other peer's queue changes.
\<close>

theorem push_rejects_or_enqueues:
  assumes "run es NewDManager = Inr dm"
  shows "(\<forall>e. dec (req_body r) = Inl e \<longrightarrow>
            (\<exists>resp. push dec dm r = Inr (dm, resp) \<and> status resp = StatusBadRequest))
     \<and> (\<forall>info. dec (req_body r) = Inr info \<longrightarrow>
            (\<exists>dm'. push dec dm r = Inr (dm', empty_response)
                  \<and> Set (mux_var r ''target_id'') info dm = Inr dm'
                  \<and> queue dm' (mux_var r ''target_id'') =
                      (if length (queue dm (mux_var r ''target_id'')) < MAX_BUFFER_NUMBER
                       then queue dm (mux_var r ''target_id'') @ [info]
                       else queue dm (mux_var r ''target_id''))
                  \<and> (\<forall>q. q \<noteq> mux_var r ''target_id'' \<longrightarrow> queue dm' q = queue dm q)))"
proof -
  have w: "well_formed dm" using well_formed_NewDManager assms by (rule well_formed_run)
  have a: "\<forall>e. dec (req_body r) = Inl e \<longrightarrow>
            (\<exists>resp. push dec dm r = Inr (dm, resp) \<and> status resp = StatusBadRequest)"
    by (simp add: push_def bad_request_def)
  have b: "\<forall>info. dec (req_body r) = Inr info \<longrightarrow>
            (\<exists>dm'. push dec dm r = Inr (dm', empty_response)
                  \<and> Set (mux_var r ''target_id'') info dm = Inr dm'
                  \<and> queue dm' (mux_var r ''target_id'') =
                      (if length (queue dm (mux_var r ''target_id'')) < MAX_BUFFER_NUMBER
                       then queue dm (mux_var r ''target_id'') @ [info]
                       else queue dm (mux_var r ''target_id''))
                  \<and> (\<forall>q. q \<noteq> mux_var r ''target_id'' \<longrightarrow> queue dm' q = queue dm q))"
  proof (intro allI impI)
    fix info assume d: "dec (req_body r) = Inr info"
    from queue_Set[OF w, of "mux_var r ''target_id''" info] obtain dm' where
      s: "Set (mux_var r ''target_id'') info dm = Inr dm'" and
      q: "queue dm' (mux_var r ''target_id'') =
                      (if length (queue dm (mux_var r ''target_id'')) < MAX_BUFFER_NUMBER
                       then queue dm (mux_var r ''target_id'') @ [info]
                       else queue dm (mux_var r ''target_id''))" by blast
    have f: "\<forall>q. q \<noteq> mux_var r ''target_id'' \<longrightarrow> queue dm' q = queue dm q"
      using Set_frame[OF w s] by blast
    have "push dec dm r = Inr (dm', empty_response)"
      using d s by (simp add: push_def)
    with s q f show "\<exists>dm'. push dec dm r = Inr (dm', empty_response)
                  \<and> Set (mux_var r ''target_id'') info dm = Inr dm'
                  \<and> queue dm' (mux_var r ''target_id'') =
                      (if length (queue dm (mux_var r ''target_id'')) < MAX_BUFFER_NUMBER
                       then queue dm (mux_var r ''target_id'') @ [info]
                       else queue dm (mux_var r ''target_id''))
                  \<and> (\<forall>q. q \<noteq> mux_var r ''target_id'' \<longrightarrow> queue dm' q = queue dm q)"
      by blast
  qed
  from a b show ?thesis by blast
qed

theorem push_rejects_or_enqueues_witness:
  "run [] NewDManager = Inr NewDManager
   \<and> (\<exists>resp. push (\<lambda>bs. if bs = [] then Inl (Error ''EOF'') else Inr (zero_SignalingInfo\<lparr>Flag := 3\<rparr>))
                NewDManager \<lparr>vars = [''target_id'' \<mapsto> ''b''], req_body = []\<rparr>
              = Inr (NewDManager, resp)
            \<and> status resp = StatusBadRequest)
   \<and> (\<exists>dm'. push (\<lambda>bs. if bs = [] then Inl (Error ''EOF'') else Inr (zero_SignalingInfo\<lparr>Flag := 3\<rparr>))
                NewDManager \<lparr>vars = [''target_id'' \<mapsto> ''b''], req_body = [1]\<rparr>
              = Inr (dm', empty_response)
            \<and> Set ''b'' (zero_SignalingInfo\<lparr>Flag := 3\<rparr>) NewDManager = Inr dm'
            \<and> queue dm' ''b'' = [zero_SignalingInfo\<lparr>Flag := 3\<rparr>])"
proof -
  let ?e = "zero_SignalingInfo\<lparr>Flag := 3\<rparr>"
  let ?dec = "\<lambda>bs :: byte list. if bs = [] then Inl (Error ''EOF'') else Inr ?e"
  let ?bad = "\<lparr>vars = [''target_id'' \<mapsto> ''b''], req_body = ([] :: byte list)\<rparr>"
  let ?ok = "\<lparr>vars = [''target_id'' \<mapsto> ''b''], req_body = ([1] :: byte list)\<rparr>"
  have r: "run [] NewDManager = Inr NewDManager" by simp
  have d1: "?dec (req_body ?bad) = Inl (Error ''EOF'')" by simp
  have d2: "?dec (req_body ?ok) = Inr ?e" by simp
  have m: "mux_var ?ok ''target_id'' = ''b''" by (simp add: mux_var_def)
  have q: "queue NewDManager ''b'' = []" by (simp add: queue_def Get_def NewDManager_def)
  from push_rejects_or_enqueues [OF r, of ?dec ?bad] d1
  have a: "\<exists>resp. push ?dec NewDManager ?bad = Inr (NewDManager, resp)
            \<and> status resp = StatusBadRequest" by blast
  from push_rejects_or_enqueues [OF r, of ?dec ?ok] d2
  have "\<exists>dm'. push ?dec NewDManager ?ok = Inr (dm', empty_response)
          \<and> Set (mux_var ?ok ''target_id'') ?e NewDManager = Inr dm'
          \<and> queue dm' (mux_var ?ok ''target_id'') =
              (if length (queue NewDManager (mux_var ?ok ''target_id'')) < MAX_BUFFER_NUMBER
               then queue NewDManager (mux_var ?ok ''target_id'') @ [?e]
               else queue NewDManager (mux_var ?ok ''target_id''))" by blast
  then have b: "\<exists>dm'. push ?dec NewDManager ?ok = Inr (dm', empty_response)
          \<and> Set ''b'' ?e NewDManager = Inr dm' \<and> queue dm' ''b'' = [?e]"
    by (simp add: m q MAX_BUFFER_NUMBER_def)
  from r a b show ?thesis by blast
qed

section \<open>Properties of the request envelope\<close>

subsection \<open>The packed Type field\<close>

lemma NewSender_Type:
  "NewSender flagLen (Inr bs) port imp optCode = Some sender \<Longrightarrow>
     Type sender = push_bit flagLen (Code imp) OR optCode"
  by (auto simp: NewSender_def)

lemma NewSender_nil: "NewSender flagLen (Inl err) port imp optCode = None"
  by (simp add: NewSender_def)

lemma bit_word_bound:
  fixes s :: int32
  assumes "unat s * 2 ^ n < 2 ^ 31" and "bit s k"
  shows "k + n < 31"
proof -
  have "bit (unat s) k" using assms(2) by (simp add: bit_unsigned_iff possible_bit_def)
  then have "\<not> unat s < 2 ^ k"
    by (auto simp: bit_iff_odd)
  then have "2 ^ k \<le> unat s" by simp
  then have "(2::nat) ^ k * 2 ^ n \<le> unat s * 2 ^ n"
    by (rule mult_le_mono1)
  also have "\<dots> < 2 ^ 31" by (rule assms(1))
  finally have "(2::nat) ^ (k + n) < 2 ^ 31" by (simp only: power_add)
  then show ?thesis by (simp only: power_strict_increasing_iff rel_simps)
qed

lemma bit_small:
  fixes opt :: int32
  assumes "unat opt < 256" and "bit opt k"
  shows "k < 8"
proof -
  have "unat opt * 2 ^ 23 < 2 ^ 31" using assms(1) by simp
  from bit_word_bound[OF this assms(2)] show ?thesis by simp
qed

lemma app_code:
  fixes s opt :: int32
  assumes "unat s * 2 ^ n < 2 ^ 31" "unat opt < 256" "8 \<le> n"
  shows "signed_drop_bit n (push_bit n s OR opt) = s"
proof (rule bit_word_eqI)
  fix k assume k: "k < LENGTH(32)"
  have o: "\<And>j. bit opt j \<Longrightarrow> j < 8" using bit_small[OF assms(2)] by blast
  have s: "\<And>j. bit s j \<Longrightarrow> j + n < 31" using bit_word_bound[OF assms(1)] by blast
  show "bit (signed_drop_bit n (push_bit n s OR opt)) k = bit s k"
    using k assms(3) o s
    by (auto simp: bit_signed_drop_bit_iff bit_or_iff bit_push_bit_iff dest: o s)
qed

lemma opt_code:
  fixes s opt :: int32
  assumes "unat opt < 256" "8 \<le> n"
  shows "(push_bit n s OR opt) AND 0xff = opt"
proof (rule bit_word_eqI)
  fix k assume k: "k < LENGTH(32)"
  have o: "\<And>j. bit opt j \<Longrightarrow> j < 8" using bit_small[OF assms(1)] by blast
  have m: "(0xff :: int32) = mask 8" by (simp add: mask_eq_exp_minus_1)
  show "bit ((push_bit n s OR opt) AND 0xff) k = bit opt k"
    unfolding m using k assms(2) o
    by (auto simp: bit_and_iff bit_or_iff bit_push_bit_iff bit_mask_iff)
qed


lemma nonneg_sint_unat:
  fixes w :: int32
  assumes "0 \<le> sint w"
  shows "int (unat w) = sint w"
proof -
  have nb: "\<not> bit w 31" using assms bit_last_iff[of w] by simp
  have "take_bit 31 (uint w) = uint w"
  proof (rule bit_eqI)
    fix j
    show "bit (take_bit 31 (uint w)) j = bit (uint w) j"
    proof (cases "j < 31")
      case True
      then show ?thesis by (simp add: bit_take_bit_iff)
    next
      case False
      have "\<not> bit w j"
      proof
        assume b: "bit w j"
        then have "j < 32" using bit_imp_le_length[of w j] by simp
        with False have "j = 31" by simp
        with b nb show False by simp
      qed
      then show ?thesis using False by (simp add: bit_take_bit_iff bit_uint_iff)
    qed
  qed
  moreover have "sint w = take_bit 31 (uint w)"
    using nb by (simp add: sint_uint signed_take_bit_eq_if_positive bit_uint_iff)
  ultimately show ?thesis by simp
qed

text \<open>
  C8, as the source has it: the claim holds for every service opcode whose shifted value
  still fits the 31 value bits of the \<^verbatim>\<open>int32\<close> field. For \<open>0 \<le> s\<close> with
  \<open>s * 2 ^ flagLen < 2 ^ 31\<close>, \<open>0 \<le> opt < 256\<close> and \<open>8 \<le> flagLen\<close>, a sender whose \<^verbatim>\<open>Type\<close>
  is \<^verbatim>\<open>(s << flagLen) | opt\<close> gives \<^verbatim>\<open>GetAppCode() = s\<close> and \<^verbatim>\<open>GetOptionCode() = opt\<close>.
\<close>

theorem Type_roundtrip_in_range:
  assumes "0 \<le> sint s" and "sint s * 2 ^ flagLen < 2 ^ 31"
    and "0 \<le> sint opt" and "sint opt < 256" and "8 \<le> flagLen"
    and "Type sender = push_bit flagLen s OR opt"
  shows "GetAppCode flagLen sender = s \<and> GetOptionCode sender = opt"
proof -
  have "int (unat s * 2 ^ flagLen) < 2 ^ 31"
    using assms(2) nonneg_sint_unat[OF assms(1)] by simp
  then have s: "unat s * 2 ^ flagLen < 2 ^ 31" by (simp only: of_nat_less_iff [symmetric, where 'a = int] of_nat_power of_nat_numeral)
  have "int (unat opt) < 256" using assms(4) nonneg_sint_unat[OF assms(3)] by simp
  then have o: "unat opt < 256" by (simp only: of_nat_less_iff [symmetric, where 'a = int] of_nat_numeral)
  show ?thesis
    using app_code[OF s o assms(5)] opt_code[OF o assms(5), of s] assms(6)
    by (simp add: GetAppCode_def GetOptionCode_def)
qed

theorem Type_roundtrip_in_range_witness:
  "0 \<le> sint (4 :: int32) \<and> sint (4 :: int32) * 2 ^ 8 < 2 ^ 31
   \<and> 0 \<le> sint (1 :: int32) \<and> sint (1 :: int32) < 256 \<and> (8 :: nat) \<le> 8
   \<and> GetAppCode 8 \<lparr>Type = push_bit 8 4 OR 1, PairId = [], Detach = False,
                     LocalEntry = [], Payload = [], Status = 0\<rparr> = 4
   \<and> GetOptionCode \<lparr>Type = push_bit 8 4 OR 1, PairId = [], Detach = False,
                      LocalEntry = [], Payload = [], Status = 0\<rparr> = 1"
proof -
  have a: "0 \<le> sint (4 :: int32)" by simp
  have b: "sint (4 :: int32) * 2 ^ 8 < 2 ^ 31" by simp
  have c: "0 \<le> sint (1 :: int32)" by simp
  have d: "sint (1 :: int32) < 256" by simp
  have e: "(8 :: nat) \<le> 8" by simp
  have f: "Type \<lparr>Type = push_bit 8 4 OR 1, PairId = [], Detach = False,
                     LocalEntry = [], Payload = [], Status = 0\<rparr> = push_bit 8 4 OR 1" by simp
  from Type_roundtrip_in_range [OF a b c d e f] a b c d e show ?thesis by blast
qed


text \<open>
  C8 as stated, for every \<open>s \<ge> 0\<close>, fails: with \<open>flagLen = 8\<close>, \<open>s = 2 ^ 23\<close> and
  \<open>opt = 0\<close> the shift moves the set bit into the sign bit, and the arithmetic shift back
  gives \<open>- 2 ^ 23\<close>.
\<close>

theorem Type_roundtrip_fails_when_shift_overflows:
  "0 \<le> sint (8388608 :: int32) \<and> 0 \<le> sint (0 :: int32) \<and> sint (0 :: int32) < 256
   \<and> (8 :: nat) \<le> 8
   \<and> GetAppCode 8 \<lparr>Type = push_bit 8 8388608 OR 0, PairId = [], Detach = False,
                     LocalEntry = [], Payload = [], Status = 0\<rparr> = - 8388608
   \<and> GetAppCode 8 \<lparr>Type = push_bit 8 8388608 OR 0, PairId = [], Detach = False,
                     LocalEntry = [], Payload = [], Status = 0\<rparr> \<noteq> 8388608"
  by (simp add: GetAppCode_def)


subsection \<open>Send\<close>

text \<open>
  C9: \<^verbatim>\<open>Send\<close> returns the connection \<open>c\<close> with a nil error exactly when the dial gave
  \<open>c\<close>, the encode and the decode returned nil and the \<^verbatim>\<open>Status\<close> the decoder left in the
  sender is 0; the connection it returns is nil exactly when the error is not; and when
  dial, encode and decode succeed but the decoded \<^verbatim>\<open>Status\<close> is not 0, it returns the nil
  connection with the error "response error".
\<close>

theorem Send_returns_conn_iff_all_succeed:
  "(\<forall>c. fst (Send dial enc dec sender) = (TCPConn c, None)
         \<longleftrightarrow> dial (LocalEntry sender) = Inr c \<and> enc c sender = None
             \<and> (\<exists>sender'. dec c sender = (None, sender') \<and> Status sender' = 0))
   \<and> (fst (fst (Send dial enc dec sender)) = NilConn
         \<longleftrightarrow> snd (fst (Send dial enc dec sender)) \<noteq> None)
   \<and> (\<forall>c sender'. dial (LocalEntry sender) = Inr c \<and> enc c sender = None
          \<and> dec c sender = (None, sender') \<and> Status sender' \<noteq> 0
         \<longrightarrow> Send dial enc dec sender = ((NilConn, Some (Error ''response error'')), sender'))"
  by (auto simp: Send_def split: sum.splits option.splits prod.splits)


theorem Send_returns_conn_iff_all_succeed_witness:
  "(\<lambda>a. Inr 7 :: error + nat)
       (LocalEntry \<lparr>Type = 0, PairId = [], Detach = False, LocalEntry = ''127.0.0.1:2224'',
                    Payload = [], Status = 0\<rparr>) = Inr 7
   \<and> (\<lambda>c s. None :: error option) (7 :: nat)
        \<lparr>Type = 0, PairId = [], Detach = False, LocalEntry = ''127.0.0.1:2224'',
         Payload = [], Status = 0\<rparr> = None
   \<and> Status (\<lparr>Type = 0, PairId = [], Detach = False, LocalEntry = ''127.0.0.1:2224'',
                Payload = [], Status = 3\<rparr>) \<noteq> 0
   \<and> Send (\<lambda>a. Inr 7) (\<lambda>c s. None) (\<lambda>c s. (None, s\<lparr>Status := 3\<rparr>))
        \<lparr>Type = 0, PairId = [], Detach = False, LocalEntry = ''127.0.0.1:2224'',
         Payload = [], Status = 0\<rparr>
      = ((NilConn, Some (Error ''response error'')),
         \<lparr>Type = 0, PairId = [], Detach = False, LocalEntry = ''127.0.0.1:2224'',
          Payload = [], Status = 3\<rparr>)"
  using Send_returns_conn_iff_all_succeed
    [of "\<lambda>a. Inr 7" "\<lambda>c s. None" "\<lambda>c s. (None, s\<lparr>Status := 3\<rparr>)"
        "\<lparr>Type = 0, PairId = [], Detach = False, LocalEntry = ''127.0.0.1:2224'',
          Payload = [], Status = 0\<rparr>"]
  by simp

section \<open>Properties of the base implementation\<close>

lemma conn_apply_op: "conn (apply_op x base) = conn base"
  by (cases x) (simp_all add: NoNeedConnect_def SetHostId_def SetPairId_def SetParentId_def)

lemma conn_apply_ops: "conn (apply_ops xs base) = conn base"
  by (induction xs arbitrary: base) (simp_all add: conn_apply_op)


text \<open>
  C10: after \<^verbatim>\<open>SetConn(c)\<close>, and whatever other setters run afterwards, \<^verbatim>\<open>Conn\<close>,
  \<^verbatim>\<open>Reader\<close>, \<^verbatim>\<open>Writer\<close> and \<^verbatim>\<open>ReadWriteCloser\<close> return \<open>c\<close>. On a \<^verbatim>\<open>BaseImpl\<close> fresh from
  \<^verbatim>\<open>NewBaseImpl\<close> on which only the other setters ran, each of the four dereferences the
  nil pointer and panics, while \<^verbatim>\<open>Close\<close> returns without closing anything.
\<close>

theorem accessors_after_SetConn_and_before:
  "Conn (apply_ops xs (SetConn c base)) = Inr c
   \<and> Reader (apply_ops xs (SetConn c base)) = Inr c
   \<and> Writer (apply_ops xs (SetConn c base)) = Inr c
   \<and> ReadWriteCloser (apply_ops xs (SetConn c base)) = Inr c
   \<and> Conn (apply_ops xs (NewBaseImpl hid)) = Inl NilPointerDereference
   \<and> Reader (apply_ops xs (NewBaseImpl hid)) = Inl NilPointerDereference
   \<and> Writer (apply_ops xs (NewBaseImpl hid)) = Inl NilPointerDereference
   \<and> ReadWriteCloser (apply_ops xs (NewBaseImpl hid)) = Inl NilPointerDereference
   \<and> Close (apply_ops xs (NewBaseImpl hid)) = Inr None"
  by (simp add: Conn_def Reader_def Writer_def ReadWriteCloser_def Close_def conn_apply_ops
      SetConn_def NewBaseImpl_def)

end
